theory Spec2Isabelle
  imports Complex_Main
begin

section \<open>Data model\<close>

text \<open>
  A trajectory point is the dictionary built by \<^verbatim>\<open>parse_gpx\<close>: the keys \<^verbatim>\<open>lat\<close>,
  \<^verbatim>\<open>lon\<close>, \<^verbatim>\<open>time\<close> and \<^verbatim>\<open>element\<close>.  Coordinates, distances and bearings are
  idealised as real numbers; the duration returned by \<^verbatim>\<open>total_seconds()\<close>, whose
  rounding changes the answer of \<^verbatim>\<open>is_stay_area\<close> on some inputs, is rounded as the
  code rounds it.  A timestamp is a \<^verbatim>\<open>datetime\<close> or \<^verbatim>\<open>None\<close>; it is modelled as the number of
  microseconds since \<^verbatim>\<open>datetime.min\<close>, so that the sort key
  \<^verbatim>\<open>p['time'] or datetime.min\<close> is the number itself, and \<^verbatim>\<open>0\<close> for \<^verbatim>\<open>None\<close>.
  The XML element of a point has no equality of its own, so two dictionaries are equal
  only when they hold the same element object: the field \<open>element\<close> stands for that
  object's identity, and \<^verbatim>\<open>id(p)\<close> is read as \<open>element p\<close>.
\<close>

record point =
  lat :: real
  lon :: real
  time :: "nat option"
  element :: nat

datatype error = TypeError

section \<open>Great-circle distance and bearing\<close>

definition radians :: "real \<Rightarrow> real" where
  "radians x = x * pi / 180"

definition degrees :: "real \<Rightarrow> real" where
  "degrees x = x * 180 / pi"

text \<open>The quantity \<^verbatim>\<open>a\<close> of \<^verbatim>\<open>haversine_distance\<close>.\<close>

definition haversine_a :: "real \<Rightarrow> real \<Rightarrow> real \<Rightarrow> real \<Rightarrow> real" where
  "haversine_a lat1 lon1 lat2 lon2 =
     (let la1 = radians lat1; lo1 = radians lon1; la2 = radians lat2; lo2 = radians lon2;
          dlat = la2 - la1; dlon = lo2 - lo1
      in (sin (dlat / 2))\<^sup>2 + cos la1 * cos la2 * (sin (dlon / 2))\<^sup>2)"

text \<open>
  \<^verbatim>\<open>haversine_distance\<close> over the reals.  In double precision the rounded value of
  \<open>a\<close> can fall just outside \<open>[0, 1]\<close>, where \<^verbatim>\<open>math.sqrt\<close> or \<^verbatim>\<open>math.asin\<close> raises
  \<^verbatim>\<open>ValueError\<close>; that behaviour depends on the rounding of the trigonometric
  functions and is outside this model, which describes the runs in which the distance
  is computed.
\<close>

definition haversine_distance :: "real \<Rightarrow> real \<Rightarrow> real \<Rightarrow> real \<Rightarrow> real" where
  "haversine_distance lat1 lon1 lat2 lon2 =
     2 * arcsin (sqrt (haversine_a lat1 lon1 lat2 lon2)) * 6371000"

text \<open>\<^verbatim>\<open>np.arctan2(y, x)\<close>, the angle of the vector \<open>(x, y)\<close> in \<open>(-\<pi>, \<pi>]\<close>.\<close>

definition arctan2 :: "real \<Rightarrow> real \<Rightarrow> real" where
  "arctan2 y x =
     (if 0 < x then arctan (y / x)
      else if x < 0 \<and> 0 \<le> y then arctan (y / x) + pi
      else if x < 0 then arctan (y / x) - pi
      else if 0 < y then pi / 2
      else if y < 0 then - (pi / 2)
      else 0)"

definition calculate_bearing :: "point \<Rightarrow> point \<Rightarrow> real" where
  "calculate_bearing point1 point2 =
     (if lat point1 = lat point2 \<and> lon point1 = lon point2 then 0
      else
        let lat1 = radians (lat point1); lon1 = radians (lon point1);
            lat2 = radians (lat point2); lon2 = radians (lon point2);
            dlon = lon2 - lon1;
            y = sin dlon * cos lat2;
            x = cos lat1 * sin lat2 - sin lat1 * cos lat2 * cos dlon
        in degrees (arctan2 y x))"

section \<open>Stay areas: validity and simplification\<close>

text \<open>
  Rounding to double precision, to nearest with ties to even, of a real number in the
  range of the normal doubles: the number is scaled to a mantissa of 53 bits, the
  mantissa is rounded to an integer, and the result is scaled back.
\<close>

definition round_half_even :: "real \<Rightarrow> int" where
  "round_half_even m =
     (let f = \<lfloor>m\<rfloor>; r = m - of_int f
      in if r < 1 / 2 then f
         else if 1 / 2 < r then f + 1
         else if even f then f else f + 1)"

definition to_double :: "real \<Rightarrow> real" where
  "to_double x =
     (if x = 0 then 0
      else
        let e = \<lfloor>log 2 \<bar>x\<bar>\<rfloor> - 52
        in of_int (round_half_even (x / 2 powr of_int e)) * 2 powr of_int e)"

text \<open>
  \<^verbatim>\<open>timedelta.total_seconds()\<close> of a difference of \<open>us\<close> microseconds: the quotient
  of the two integers \<open>us\<close> and \<open>10\<^sup>6\<close>, correctly rounded to a double.  A difference of
  two timestamps is below \<open>2\<^sup>5\<^sup>9\<close> microseconds and, unless it is zero, at least one
  microsecond, so the quotient is in the range of the normal doubles.
\<close>

definition total_seconds :: "int \<Rightarrow> real" where
  "total_seconds us = to_double (of_int us / 1000000)"

text \<open>
  \<^verbatim>\<open>is_stay_area\<close>.  A \<^verbatim>\<open>datetime\<close> is always truthy, so the test
  \<^verbatim>\<open>area_points[0]['time'] and area_points[-1]['time']\<close> asks whether both are present.
  The comparison of the float \<^verbatim>\<open>stay_duration\<close> with \<^verbatim>\<open>min_stay_time\<close>, an integer or
  a float, is exact.
\<close>

definition is_stay_area :: "real \<Rightarrow> point list \<Rightarrow> bool" where
  "is_stay_area min_stay_time area_points =
     (if length area_points < 2 then False
      else
        case (time (hd area_points), time (last area_points)) of
          (Some t_first, Some t_last) \<Rightarrow>
            (let stay_duration = total_seconds (int t_last - int t_first)
             in min_stay_time \<le> stay_duration)
        | _ \<Rightarrow> 10 \<le> length area_points)"

text \<open>The arithmetic mean \<^verbatim>\<open>(center_lat, center_lon)\<close> of a non-empty list of points.\<close>

definition center_of :: "point list \<Rightarrow> real \<times> real" where
  "center_of ps =
     (sum_list (map lat ps) / real (length ps), sum_list (map lon ps) / real (length ps))"

definition dist_to :: "point \<Rightarrow> real \<times> real \<Rightarrow> real" where
  "dist_to p c = haversine_distance (lat p) (lon p) (fst c) (snd c)"

text \<open>
  The loops that keep the first point of least distance: the state is
  \<^verbatim>\<open>(min_distance, center_point)\<close>, with \<open>None\<close> for \<^verbatim>\<open>float('inf')\<close>.
\<close>

definition closer :: "real \<Rightarrow> real option \<Rightarrow> bool" where
  "closer d min_distance = (case min_distance of None \<Rightarrow> True | Some m \<Rightarrow> d < m)"

definition nearest_to_center :: "real \<times> real \<Rightarrow> point list \<Rightarrow> point \<Rightarrow> point" where
  "nearest_to_center c ps start =
     snd (fold (\<lambda>p (min_distance, center_point).
                  if closer (dist_to p c) min_distance then (Some (dist_to p c), p)
                  else (min_distance, center_point))
               ps (None, start))"

text \<open>
  The loop \<^verbatim>\<open>for p in simplified: if id(p) not in seen_ids: ...\<close>, keeping the first
  occurrence of every identity; \<open>seen\<close> is \<^verbatim>\<open>seen_ids\<close>.
\<close>

fun dedup_ids :: "nat list \<Rightarrow> point list \<Rightarrow> point list" where
  "dedup_ids seen [] = []"
| "dedup_ids seen (p # ps) =
     (if element p \<in> set seen then dedup_ids seen ps
      else p # dedup_ids (element p # seen) ps)"

text \<open>
  \<^verbatim>\<open>simplify_stay_area\<close>; \<^verbatim>\<open>max_stay_points\<close> is a count, a natural number.
\<close>

definition simplify_stay_area :: "nat \<Rightarrow> point list \<Rightarrow> point list" where
  "simplify_stay_area max_stay_points area_points =
     (if length area_points \<le> max_stay_points then area_points
      else if max_stay_points = 1 then
        [nearest_to_center (center_of area_points) area_points (hd area_points)]
      else if max_stay_points = 2 then [hd area_points, last area_points]
      else
        let simplified = [hd area_points];
            middle_count = min (max_stay_points - 2) 1;
            simplified =
              (if 2 < max_stay_points \<and> 0 < middle_count
               then simplified @ [area_points ! (length area_points div 2)]
               else simplified);
            simplified = simplified @ [last area_points]
        in dedup_ids [] simplified)"

section \<open>Moving points\<close>

text \<open>
  \<^verbatim>\<open>is_turning_point\<close>.  The index is an integer: the caller passes \<open>-1\<close> when the
  point is not found.
\<close>

definition wrap_angle :: "real \<Rightarrow> real" where
  "wrap_angle angle_diff = (if 180 < angle_diff then 360 - angle_diff else angle_diff)"

definition is_turning_point :: "point \<Rightarrow> point list \<Rightarrow> int \<Rightarrow> nat \<Rightarrow> bool" where
  "is_turning_point pt all_points point_index window =
     (if point_index < 0 \<or> int (length all_points) \<le> point_index then False
      else if point_index < int window \<or> int (length all_points) - int window \<le> point_index
      then True
      else
        let prev_point = all_points ! nat (point_index - int window);
            next_point = all_points ! nat (point_index + int window);
            bearing1 = calculate_bearing prev_point pt;
            bearing2 = calculate_bearing pt next_point
        in 30 < wrap_angle \<bar>bearing1 - bearing2\<bar>)"

text \<open>
  \<^verbatim>\<open>next((i for i, p in enumerate(all_points) if p is point), -1)\<close>: the first position
  holding the very same object.
\<close>

fun index_of :: "point \<Rightarrow> point list \<Rightarrow> int" where
  "index_of pt [] = - 1"
| "index_of pt (p # ps) =
     (if element p = element pt then 0
      else let r = index_of pt ps in if r < 0 then - 1 else r + 1)"

definition should_keep_moving_point :: "real \<Rightarrow> point \<Rightarrow> point list \<Rightarrow> point list \<Rightarrow> bool" where
  "should_keep_moving_point moving_threshold pt all_points simplified_points =
     (if simplified_points = [] then True
      else
        let last_point = last simplified_points;
            distance = haversine_distance (lat pt) (lon pt) (lat last_point) (lon last_point)
        in if moving_threshold \<le> distance then True
           else if is_turning_point pt all_points (index_of pt all_points) 5 then True
           else False)"

section \<open>Segmentation into stay areas and moving segments\<close>

text \<open>The Python slice \<^verbatim>\<open>xs[a:b]\<close> for \<open>0 \<le> a\<close>, \<open>0 \<le> b\<close>.\<close>

definition slice :: "'a list \<Rightarrow> nat \<Rightarrow> nat \<Rightarrow> 'a list" where
  "slice xs a b = take (b - a) (drop a xs)"

text \<open>
  The lookahead loop of \<^verbatim>\<open>identify_stay_areas_improved\<close>:
  \<^verbatim>\<open>while k < len(points) and len(temp_moving) < 10\<close>.  The centre \<open>c\<close> is the one
  computed before the loop and is not updated.  \<open>Some (k, temp_moving)\<close> is the exit
  through \<^verbatim>\<open>break\<close> at the returning point \<open>k\<close>; \<open>None\<close> is the \<^verbatim>\<open>else\<close> clause
  of the loop.
\<close>

function lookahead ::
  "real \<Rightarrow> point list \<Rightarrow> real \<times> real \<Rightarrow> nat \<Rightarrow> point list \<Rightarrow> (nat \<times> point list) option" where
  "lookahead stay_radius points c k temp_moving =
     (if k < length points \<and> length temp_moving < 10 then
        (if dist_to (points ! k) c \<le> stay_radius then Some (k, temp_moving)
         else lookahead stay_radius points c (k + 1) (temp_moving @ [points ! k]))
      else None)"
  by pat_completeness auto
termination
  by (relation "measure (\<lambda>(stay_radius, points, c, k, temp_moving). length points - k)") auto

declare lookahead.simps [simp del]

text \<open>The returning point is not before the start of the lookahead; needed for termination.\<close>

lemma lookahead_bounds:
  "lookahead stay_radius points c k temp_moving = Some (k', temp') \<Longrightarrow>
     k \<le> k' \<and> k' < length points"
proof (induction stay_radius points c k temp_moving rule: lookahead.induct)
  case (1 stay_radius points c k temp_moving)
  from "1.prems" have guard: "k < length points \<and> length temp_moving < 10"
    by (subst (asm) lookahead.simps) (simp split: if_splits)
  show ?case
  proof (cases "dist_to (points ! k) c \<le> stay_radius")
    case True
    with guard "1.prems" have "k' = k"
      by (subst (asm) lookahead.simps) simp
    with guard show ?thesis by simp
  next
    case False
    with guard "1.prems"
    have "lookahead stay_radius points c (k + 1) (temp_moving @ [points ! k]) = Some (k', temp')"
      by (subst (asm) lookahead.simps) simp
    from "1.IH" [OF guard False this] show ?thesis by simp
  qed
qed

text \<open>
  The loop over \<open>j\<close> that grows \<^verbatim>\<open>potential_stay_area\<close>; it returns the closed
  candidate and the final \<open>j\<close>.
\<close>

function grow :: "real \<Rightarrow> point list \<Rightarrow> point list \<Rightarrow> nat \<Rightarrow> point list \<times> nat" where
  "grow stay_radius points potential_stay_area j =
     (if j < length points then
        (let c = center_of potential_stay_area
         in if dist_to (points ! j) c \<le> stay_radius
            then grow stay_radius points (potential_stay_area @ [points ! j]) (j + 1)
            else (case lookahead stay_radius points c j [] of
                    Some (k, temp_moving) \<Rightarrow>
                      grow stay_radius points
                        (potential_stay_area @ temp_moving @ [points ! k]) (k + 1)
                  | None \<Rightarrow> (potential_stay_area, j)))
      else (potential_stay_area, j))"
  by pat_completeness auto
termination
proof (relation "measure (\<lambda>(stay_radius, points, potential_stay_area, j). length points - j)")
  show "wf (measure (\<lambda>(stay_radius, points, potential_stay_area, j). length points - j))"
    by simp
next
  fix stay_radius :: real and points potential_stay_area :: "point list" and j :: nat and c
  assume "j < length points"
  then show "((stay_radius, points, potential_stay_area @ [points ! j], j + 1),
              stay_radius, points, potential_stay_area, j)
             \<in> measure (\<lambda>(stay_radius, points, potential_stay_area, j). length points - j)"
    by simp
next
  fix stay_radius :: real and points potential_stay_area :: "point list" and j :: nat
    and c x2 k temp_moving
  assume "j < length points" "c = center_of potential_stay_area"
    "lookahead stay_radius points c j [] = Some x2" "(k, temp_moving) = x2"
  then have "j \<le> k \<and> k < length points"
    using lookahead_bounds [of stay_radius points c j "[]" k temp_moving] by simp
  then have "j \<le> k" and "k < length points"
    by simp_all
  then show "((stay_radius, points, potential_stay_area @ temp_moving @ [points ! k], k + 1),
              stay_radius, points, potential_stay_area, j)
             \<in> measure (\<lambda>(stay_radius, points, potential_stay_area, j). length points - j)"
    by simp
qed

declare grow.simps [simp del]

text \<open>
  The walk of the invalid branch: \<^verbatim>\<open>while i < len(points) - 1\<close>, stopping at the first
  adjacent pair closer than 10 metres.  It returns the final \<open>i\<close>;
  \<open>step_distance points i\<close> is the distance from \<^verbatim>\<open>points[i]\<close> to
  \<^verbatim>\<open>points[i + 1]\<close>.
\<close>

definition step_distance :: "point list \<Rightarrow> nat \<Rightarrow> real" where
  "step_distance points i =
     haversine_distance (lat (points ! i)) (lon (points ! i))
       (lat (points ! (i + 1))) (lon (points ! (i + 1)))"

function walk :: "point list \<Rightarrow> nat \<Rightarrow> nat" where
  "walk points i =
     (if i + 1 < length points then
        (if step_distance points i < 10 then i else walk points (i + 1))
      else i)"
  by pat_completeness auto
termination
  by (relation "measure (\<lambda>(points, i). length points - i)") auto

declare walk.simps [simp del]

text \<open>
  One iteration of the outer loop \<^verbatim>\<open>while i < len(points)\<close>; the state is
  \<^verbatim>\<open>(i, stay_areas, moving_segments)\<close>.
\<close>

definition outer_step ::
  "real \<Rightarrow> real \<Rightarrow> point list \<Rightarrow> nat \<times> point list list \<times> point list list
     \<Rightarrow> nat \<times> point list list \<times> point list list" where
  "outer_step stay_radius min_stay_time points st =
     (case st of (i, stay_areas, moving_segments) \<Rightarrow>
        (case grow stay_radius points [points ! i] (i + 1) of (potential_stay_area, j) \<Rightarrow>
           if is_stay_area min_stay_time potential_stay_area
           then (j, stay_areas @ [potential_stay_area], moving_segments)
           else
             let moving_start = i;
                 i' = walk points i;
                 moving_segments' =
                   (if moving_start < i'
                    then moving_segments @ [slice points moving_start (i' + 1)]
                    else moving_segments)
             in (i' + 1, stay_areas, moving_segments')))"

text \<open>Both branches move the cursor forward; needed for termination of the outer loop.\<close>

lemma grow_advances: "grow stay_radius points area j = (area', j') \<Longrightarrow> j \<le> j'"
proof (induction stay_radius points area j rule: grow.induct)
  case (1 stay_radius points area j)
  show ?case
  proof (cases "j < length points")
    case False
    with "1.prems" have "j' = j"
      by (subst (asm) grow.simps) simp
    then show ?thesis by simp
  next
    case True
    show ?thesis
    proof (cases "dist_to (points ! j) (center_of area) \<le> stay_radius")
      case near: True
      with True "1.prems" have "grow stay_radius points (area @ [points ! j]) (j + 1) = (area', j')"
        by (subst (asm) grow.simps) (simp add: Let_def)
      from "1.IH"(1) [OF True refl near this] show ?thesis by simp
    next
      case far: False
      show ?thesis
      proof (cases "lookahead stay_radius points (center_of area) j []")
        case None
        with True far "1.prems" have "j' = j"
          by (subst (asm) grow.simps) (simp add: Let_def)
        then show ?thesis by simp
      next
        case (Some r)
        obtain k temp where r: "r = (k, temp)" by (cases r)
        with Some have la: "lookahead stay_radius points (center_of area) j [] = Some (k, temp)"
          by simp
        with True far "1.prems"
        have "grow stay_radius points (area @ temp @ [points ! k]) (k + 1) = (area', j')"
          by (subst (asm) grow.simps) (simp add: Let_def)
        from "1.IH"(2) [OF True refl far Some r [symmetric] this] have "k + 1 \<le> j'" by simp
        moreover from la have "j \<le> k" using lookahead_bounds by blast
        ultimately show ?thesis by simp
      qed
    qed
  qed
qed

lemma walk_ge: "i \<le> walk points i"
proof (induction points i rule: walk.induct)
  case (1 points i)
  show ?case
  proof (cases "i + 1 < length points \<and> \<not> step_distance points i < 10")
    case True
    then have "i + 1 < length points" and "\<not> step_distance points i < 10"
      by simp_all
    then have "i + 1 \<le> walk points (i + 1)"
      by (rule "1.IH")
    moreover from True have "walk points i = walk points (i + 1)"
      by (subst walk.simps) simp
    ultimately show ?thesis by simp
  next
    case False
    then have "walk points i = i"
      by (subst walk.simps) auto
    then show ?thesis by simp
  qed
qed

lemma outer_step_advances: "fst st < fst (outer_step stay_radius min_stay_time points st)"
proof -
  obtain i stay_areas moving_segments where st: "st = (i, stay_areas, moving_segments)"
    by (cases st)
  obtain area j where g: "grow stay_radius points [points ! i] (i + 1) = (area, j)"
    by (cases "grow stay_radius points [points ! i] (i + 1)")
  from g have "i + 1 \<le> j" by (rule grow_advances)
  moreover have "i \<le> walk points i" by (rule walk_ge)
  ultimately show ?thesis
    using g by (simp add: st outer_step_def Let_def)
qed

function segment_loop ::
  "real \<Rightarrow> real \<Rightarrow> point list \<Rightarrow> nat \<times> point list list \<times> point list list
     \<Rightarrow> point list list \<times> point list list" where
  "segment_loop stay_radius min_stay_time points st =
     (if fst st < length points
      then segment_loop stay_radius min_stay_time points
             (outer_step stay_radius min_stay_time points st)
      else snd st)"
  by pat_completeness auto
termination
proof (relation "measure (\<lambda>(stay_radius, min_stay_time, points, st). length points - fst st)")
  show "wf (measure (\<lambda>(stay_radius, min_stay_time, points, st). length points - fst st))"
    by simp
next
  fix stay_radius min_stay_time :: real and points :: "point list"
    and st :: "nat \<times> point list list \<times> point list list"
  assume "fst st < length points"
  with outer_step_advances [of st stay_radius min_stay_time points]
  show "((stay_radius, min_stay_time, points, outer_step stay_radius min_stay_time points st),
         stay_radius, min_stay_time, points, st)
        \<in> measure (\<lambda>(stay_radius, min_stay_time, points, st). length points - fst st)"
    by simp
qed

declare segment_loop.simps [simp del]

definition identify_stay_areas_improved ::
  "real \<Rightarrow> real \<Rightarrow> point list \<Rightarrow> point list list \<times> point list list" where
  "identify_stay_areas_improved stay_radius min_stay_time points =
     (if points = [] then ([], [])
      else segment_loop stay_radius min_stay_time points (0, [], []))"


section \<open>The override zone\<close>

definition is_in_bupt_area :: "real \<Rightarrow> real \<Rightarrow> bool" where
  "is_in_bupt_area la lo =
     (3995822855 / 100000000 \<le> la \<and> la \<le> 3996502929 / 100000000
      \<and> 11635502636 / 100000000 \<le> lo \<and> lo \<le> 11636105597 / 100000000)"

text \<open>The sort key \<^verbatim>\<open>p['time'] or datetime.min\<close>.\<close>

definition time_key :: "point \<Rightarrow> nat" where
  "time_key p = (case time p of None \<Rightarrow> 0 | Some t \<Rightarrow> t)"

text \<open>
  The block \<^verbatim>\<open>if self.bupt_simplified_points_count >= 2\<close> of
  \<^verbatim>\<open>_simplify_bupt_cluster\<close>.  \<^verbatim>\<open>sorted(bupt_cluster, key=lambda p: p['time'])\<close>
  compares the timestamps themselves: with three or more points, one of them without a
  timestamp, some comparison involves \<^verbatim>\<open>None\<close> and raises \<^verbatim>\<open>TypeError\<close>.
  \<^verbatim>\<open>sorted\<close> is stable, as \<open>sort_key\<close> is.
\<close>

definition keep_extremes :: "point list \<Rightarrow> point list \<Rightarrow> error + point list" where
  "keep_extremes bupt_cluster simplified =
     (if time (hd bupt_cluster) \<noteq> None \<and> time (last bupt_cluster) \<noteq> None then
        (if None \<in> set (map time bupt_cluster) then Inl TypeError
         else
           let sorted_cluster = sort_key (\<lambda>p. the (time p)) bupt_cluster;
               simplified =
                 (if hd sorted_cluster \<in> set simplified then simplified
                  else simplified @ [hd sorted_cluster]);
               simplified =
                 (if last sorted_cluster \<in> set simplified then simplified
                  else simplified @ [last sorted_cluster])
           in Inr simplified)
      else
        Inr (if last bupt_cluster \<in> set simplified then simplified
             else simplified @ [last bupt_cluster]))"

text \<open>
  The block \<^verbatim>\<open>if self.bupt_simplified_points_count >= 3\<close>: the first point of least
  distance to the centre among those not selected yet, if there is one.
\<close>

definition central_point_of :: "point list \<Rightarrow> point list \<Rightarrow> point option" where
  "central_point_of bupt_cluster simplified =
     snd (fold (\<lambda>p (min_distance, central_point).
                  if closer (dist_to p (center_of bupt_cluster)) min_distance
                     \<and> p \<notin> set simplified
                  then (Some (dist_to p (center_of bupt_cluster)), Some p)
                  else (min_distance, central_point))
               bupt_cluster (None, None))"

definition simplify_bupt_cluster :: "nat \<Rightarrow> point list \<Rightarrow> error + point list" where
  "simplify_bupt_cluster bupt_simplified_points_count bupt_cluster =
     (if bupt_cluster = [] then Inr []
      else if length bupt_cluster \<le> bupt_simplified_points_count then Inr bupt_cluster
      else
        let simplified = (if 1 \<le> bupt_simplified_points_count then [hd bupt_cluster] else [])
        in case (if 2 \<le> bupt_simplified_points_count
                 then keep_extremes bupt_cluster simplified else Inr simplified) of
             Inl e \<Rightarrow> Inl e
           | Inr simplified \<Rightarrow>
               let simplified =
                     (if 3 \<le> bupt_simplified_points_count then
                        (case central_point_of bupt_cluster simplified of
                           Some central_point \<Rightarrow> simplified @ [central_point]
                         | None \<Rightarrow> simplified)
                      else simplified);
                   final_simplified = dedup_ids [] simplified;
                   seen_ids = map element final_simplified;
                   final_simplified =
                     (if length final_simplified < bupt_simplified_points_count then
                        let remaining_points =
                              filter (\<lambda>p. element p \<notin> set seen_ids) bupt_cluster
                        in if remaining_points \<noteq> [] then
                             final_simplified
                             @ take (bupt_simplified_points_count - length final_simplified)
                                 (sort_key time_key remaining_points)
                           else final_simplified
                      else final_simplified);
                   final_simplified =
                     (if final_simplified \<noteq> [] \<and> time (hd final_simplified) \<noteq> None
                      then sort_key time_key final_simplified
                      else final_simplified)
               in Inr final_simplified)"

text \<open>
  The pre-processing loop of \<^verbatim>\<open>simplify_gpx_improved\<close>, with the state
  \<^verbatim>\<open>(processed_points, bupt_cluster)\<close>; the empty input list is the code after the
  loop, which flushes a trailing cluster.
\<close>

fun bupt_scan :: "nat \<Rightarrow> point list \<Rightarrow> point list \<Rightarrow> point list \<Rightarrow> error + point list" where
  "bupt_scan n [] processed_points bupt_cluster =
     (if bupt_cluster \<noteq> [] then
        (case simplify_bupt_cluster n bupt_cluster of
           Inl e \<Rightarrow> Inl e
         | Inr simplified_bupt \<Rightarrow> Inr (processed_points @ simplified_bupt))
      else Inr processed_points)"
| "bupt_scan n (p # ps) processed_points bupt_cluster =
     (if is_in_bupt_area (lat p) (lon p) then bupt_scan n ps processed_points (bupt_cluster @ [p])
      else if bupt_cluster \<noteq> [] then
        (case simplify_bupt_cluster n bupt_cluster of
           Inl e \<Rightarrow> Inl e
         | Inr simplified_bupt \<Rightarrow> bupt_scan n ps (processed_points @ simplified_bupt @ [p]) [])
      else bupt_scan n ps (processed_points @ [p]) [])"

definition bupt_preprocess :: "nat \<Rightarrow> point list \<Rightarrow> error + point list" where
  "bupt_preprocess n points = bupt_scan n points [] []"

section \<open>The pipeline\<close>

text \<open>\<^verbatim>\<open>stay_points_set\<close>: the identities of all points of all stay areas.\<close>

definition stay_points_set :: "point list list \<Rightarrow> nat set" where
  "stay_points_set stay_areas = element ` set (concat stay_areas)"

text \<open>
  The body of the loop \<^verbatim>\<open>for point in points\<close> of \<^verbatim>\<open>simplify_gpx_improved\<close>.  The
  state is \<^verbatim>\<open>(simplified_points, processed_areas)\<close> together with the list of the
  areas for which \<^verbatim>\<open>simplify_stay_area\<close> was called, one entry for each progress line
  the loop prints.  The inner \<^verbatim>\<open>for area in stay_areas\<close> stops at the first area that
  holds the point and is not marked yet.
\<close>

definition route_point ::
  "nat \<Rightarrow> real \<Rightarrow> point list \<Rightarrow> point list list \<Rightarrow> point
     \<Rightarrow> point list \<times> nat set \<times> point list list \<Rightarrow> point list \<times> nat set \<times> point list list" where
  "route_point max_stay_points moving_threshold points stay_areas pt st =
     (case st of (simplified_points, processed_areas, simplified_log) \<Rightarrow>
        if element pt \<in> stay_points_set stay_areas then
          (case find (\<lambda>area. pt \<in> set area \<and> element (hd area) \<notin> processed_areas)
                  stay_areas of
             Some area \<Rightarrow>
               (simplified_points @ simplify_stay_area max_stay_points area,
                insert (element (hd area)) processed_areas,
                simplified_log @ [area])
           | None \<Rightarrow> st)
        else if should_keep_moving_point moving_threshold pt points simplified_points
        then (simplified_points @ [pt], processed_areas, simplified_log)
        else st)"

definition route_all ::
  "nat \<Rightarrow> real \<Rightarrow> point list \<Rightarrow> point list list
     \<Rightarrow> point list \<times> nat set \<times> point list list" where
  "route_all max_stay_points moving_threshold points stay_areas =
     fold (route_point max_stay_points moving_threshold points stay_areas) points ([], {}, [])"

text \<open>The final sort, applied when the first retained point has a timestamp.\<close>

definition sort_by_time :: "point list \<Rightarrow> point list" where
  "sort_by_time simplified_points =
     (if simplified_points \<noteq> [] \<and> time (hd simplified_points) \<noteq> None
      then sort_key time_key simplified_points
      else simplified_points)"

text \<open>
  The part of \<^verbatim>\<open>simplify_gpx_improved\<close> after the pre-processing: segmentation,
  routing of every point, final sort.
\<close>

definition simplify_filtered ::
  "real \<Rightarrow> real \<Rightarrow> nat \<Rightarrow> real \<Rightarrow> point list \<Rightarrow> point list" where
  "simplify_filtered stay_radius min_stay_time max_stay_points moving_threshold points =
     (let stay_areas = fst (identify_stay_areas_improved stay_radius min_stay_time points)
      in sort_by_time
           (fst (route_all max_stay_points moving_threshold points stay_areas)))"

text \<open>
  \<^verbatim>\<open>simplify_gpx_improved\<close> on the parsed points, up to the list handed to
  \<^verbatim>\<open>create_simplified_gpx\<close>.  On an empty input the source returns before writing
  anything; the model returns the empty list.
\<close>

definition simplify_gpx_improved ::
  "real \<Rightarrow> real \<Rightarrow> nat \<Rightarrow> real \<Rightarrow> nat \<Rightarrow> point list \<Rightarrow> error + point list" where
  "simplify_gpx_improved stay_radius min_stay_time max_stay_points moving_threshold
       bupt_simplified_points_count points =
     (if points = [] then Inr []
      else
        case bupt_preprocess bupt_simplified_points_count points of
          Inl e \<Rightarrow> Inl e
        | Inr processed_points \<Rightarrow>
            Inr (simplify_filtered stay_radius min_stay_time max_stay_points moving_threshold
                   processed_points))"

text \<open>
  The invariant of the loop \<^verbatim>\<open>for point in points\<close>, after the points of \<open>seen\<close> have
  been visited: the retained points and the logged areas are free of repetitions, the
  marks in \<^verbatim>\<open>processed_areas\<close> are the first points of the logged areas, a retained point
  is either a visited point outside every stay area or comes from the simplification of
  a logged area, and an area is logged as soon as one of its points has been visited.
\<close>

definition route_inv ::
  "nat \<Rightarrow> point list list \<Rightarrow> point set \<Rightarrow> point list \<times> nat set \<times> point list list \<Rightarrow> bool" where
  "route_inv n stay_areas seen st =
     (case st of (simplified_points, processed_areas, simplified_log) \<Rightarrow>
        distinct simplified_points \<and> distinct simplified_log
        \<and> set simplified_log \<subseteq> set stay_areas
        \<and> processed_areas = (\<lambda>a. element (hd a)) ` set simplified_log
        \<and> set simplified_points
             \<subseteq> (seen - set (concat stay_areas))
               \<union> (\<Union>a \<in> set simplified_log. set (simplify_stay_area n a))
        \<and> (\<Union>a \<in> set simplified_log. set (simplify_stay_area n a)) \<subseteq> set simplified_points
        \<and> (\<forall>a \<in> set stay_areas. set a \<inter> seen \<noteq> {} \<longrightarrow> a \<in> set simplified_log))"
section \<open>Properties of the geometry\<close>

lemma haversine_distance_same: "haversine_distance la lo la lo = 0"
  by (simp add: haversine_distance_def haversine_a_def)



lemma arctan2_range: "- pi \<le> arctan2 y x \<and> arctan2 y x \<le> pi"
proof -
  have b: "- (pi / 2) < arctan (y / x)" "arctan (y / x) < pi / 2"
    using arctan_bounded [of "y / x"] by simp_all
  have neg: "arctan (y / x) \<le> 0" if "x < 0" "0 \<le> y"
  proof -
    from that have "y / x \<le> 0" by (simp add: divide_nonneg_neg)
    then show ?thesis by (simp add: arctan_le_zero_iff)
  qed
  have pos: "0 \<le> arctan (y / x)" if "x < 0" "y < 0"
  proof -
    from that have "0 \<le> y / x" by (simp add: divide_nonpos_neg)
    then show ?thesis by (simp add: zero_le_arctan_iff)
  qed
  have p: "0 < pi" by simp
  show ?thesis
    unfolding arctan2_def using b neg pos p by (auto simp: not_less not_le)
qed

lemma calculate_bearing_range:
  "- 180 \<le> calculate_bearing a b \<and> calculate_bearing a b \<le> 180"
proof (cases "lat a = lat b \<and> lon a = lon b")
  case True
  then show ?thesis by (simp add: calculate_bearing_def)
next
  case False
  have d: "- 180 \<le> degrees t \<and> degrees t \<le> 180" if "- pi \<le> t" "t \<le> pi" for t
  proof -
    have "0 < pi" by simp
    with that show ?thesis
      by (simp add: degrees_def field_simps)
  qed
  from False show ?thesis
    using d arctan2_range by (simp add: calculate_bearing_def Let_def)
qed

lemma wrap_angle_range:
  assumes "0 \<le> d" "d \<le> 360"
  shows "0 \<le> wrap_angle d \<and> wrap_angle d \<le> 180"
  using assms by (simp add: wrap_angle_def)

section \<open>Properties of stay validity, stay simplification and turning points\<close>

lemma index_of_nonneg_iff: "0 \<le> index_of pt ps \<longleftrightarrow> element pt \<in> element ` set ps"
  by (induction ps) (auto simp: Let_def)

lemma index_of_nth:
  "distinct (map element ps) \<Longrightarrow> n < length ps \<Longrightarrow> index_of (ps ! n) ps = int n"
proof (induction ps arbitrary: n)
  case Nil
  then show ?case by simp
next
  case (Cons q qs)
  show ?case
  proof (cases n)
    case 0
    then show ?thesis by simp
  next
    case (Suc m)
    with Cons.prems have m: "m < length qs" and d: "distinct (map element qs)"
      and nq: "element q \<notin> element ` set qs"
      by auto
    from m have "qs ! m \<in> set qs" by simp
    with nq have "element q \<noteq> element (qs ! m)" by force
    with Suc Cons.IH [OF d m] show ?thesis by (simp add: Let_def)
  qed
qed

subsection \<open>Rounding of durations\<close>

lemma round_half_even_floor: "\<lfloor>m\<rfloor> \<le> round_half_even m \<and> round_half_even m \<le> \<lfloor>m\<rfloor> + 1"
  by (simp add: round_half_even_def Let_def)

lemma round_half_even_upper: "of_int (round_half_even m) \<le> m + 1 / 2"
proof -
  define f where "f = \<lfloor>m\<rfloor>"
  have a: "of_int f \<le> m"
    by (simp add: f_def)
  show ?thesis
  proof (cases "m - of_int f < 1 / 2")
    case True
    then have "round_half_even m = f"
      by (simp add: round_half_even_def Let_def f_def)
    with a show ?thesis by simp
  next
    case False
    have "round_half_even m \<le> f + 1"
      using round_half_even_floor [of m] by (simp add: f_def)
    then have "(of_int (round_half_even m) :: real) \<le> of_int (f + 1)"
      by (simp only: of_int_le_iff)
    with False show ?thesis by simp
  qed
qed

lemma binade:
  assumes "x \<noteq> 0"
  shows "2 powr of_int \<lfloor>log 2 \<bar>x\<bar>\<rfloor> \<le> \<bar>x\<bar>"
    and "\<bar>x\<bar> < 2 powr of_int (\<lfloor>log 2 \<bar>x\<bar>\<rfloor> + 1)"
proof -
  from assms have "0 < \<bar>x\<bar>" by simp
  then have "2 powr of_int \<lfloor>log 2 \<bar>x\<bar>\<rfloor> \<le> \<bar>x\<bar> \<and> \<bar>x\<bar> < 2 powr of_int (\<lfloor>log 2 \<bar>x\<bar>\<rfloor> + 1)"
    using floor_log_eq_powr_iff [of "\<bar>x\<bar>" 2 "\<lfloor>log 2 \<bar>x\<bar>\<rfloor>"] by simp
  then show "2 powr of_int \<lfloor>log 2 \<bar>x\<bar>\<rfloor> \<le> \<bar>x\<bar>"
    and "\<bar>x\<bar> < 2 powr of_int (\<lfloor>log 2 \<bar>x\<bar>\<rfloor> + 1)" by simp_all
qed


lemma to_double_ge_nat:
  assumes "real n \<le> q" and "n \<le> 2 ^ 33"
  shows "real n \<le> to_double q"
proof (cases "q = 0")
  case True
  with assms(1) show ?thesis by (simp add: to_double_def)
next
  case False
  with assms(1) have qpos: "0 < q" by (cases "n = 0") auto
  define k where "k = \<lfloor>log 2 \<bar>q\<bar>\<rfloor>"
  define P :: real where "P = 2 powr of_int (k - 52)"
  define m where "m = q / P"
  have Ppos: "0 < P" by (simp add: P_def)
  have td: "to_double q = of_int (round_half_even m) * P"
    using False by (simp add: to_double_def Let_def k_def P_def m_def)
  have lo: "2 powr of_int k \<le> q"
    using binade(1) [OF False] qpos by (simp add: k_def)
  have fl: "(of_int \<lfloor>m\<rfloor> :: real) \<le> of_int (round_half_even m)"
    using round_half_even_floor [of m] by (simp only: of_int_le_iff)
  show ?thesis
  proof (cases "k \<le> 52")
    case True
    define K where "K = int n * 2 ^ nat (52 - k)"
    have "P * 2 powr of_int (52 - k) = 2 powr (of_int (k - 52) + of_int (52 - k))"
      by (simp only: P_def powr_add)
    then have inv: "P * 2 powr of_int (52 - k) = 1" by simp
    have "(2 :: real) powr of_int (52 - k) = 2 powr real (nat (52 - k))"
      using True by simp
    also have "\<dots> = 2 ^ nat (52 - k)"
      by (simp add: powr_realpow)
    finally have pw: "(2 :: real) powr of_int (52 - k) = 2 ^ nat (52 - k)" .
    have KP: "of_int K * P = real n"
      using inv by (simp add: K_def pw [symmetric] mult.assoc mult.commute)
    have "of_int K * P \<le> m * P"
      using assms(1) Ppos by (simp add: KP m_def)
    with Ppos have "of_int K \<le> m" by simp
    then have "K \<le> \<lfloor>m\<rfloor>" by (simp add: le_floor_iff)
    then have "(of_int K :: real) \<le> of_int \<lfloor>m\<rfloor>" by (simp only: of_int_le_iff)
    with fl have "(of_int K :: real) \<le> of_int (round_half_even m)" by simp
    with Ppos have "of_int K * P \<le> of_int (round_half_even m) * P" by simp
    with KP td show ?thesis by simp
  next
    case False
    then have k53: "53 \<le> k" by simp
    have "(2 :: real) powr 52 * P = 2 powr (52 + of_int (k - 52))"
      by (simp only: P_def powr_add)
    also have "\<dots> = 2 powr of_int k"
      by simp
    finally have "(2 :: real) powr of_int k = 2 powr 52 * P"
      by (rule sym)
    with lo Ppos have "(2 :: real) powr 52 \<le> m"
      by (simp add: m_def pos_le_divide_eq)
    then have "(2 :: real) ^ 52 \<le> m" by simp
    then have "(of_int (2 ^ 52) :: real) \<le> m" by simp
    then have "(2 ^ 52 :: int) \<le> \<lfloor>m\<rfloor>" by (simp only: le_floor_iff)
    with round_half_even_floor [of m] have "(2 ^ 52 :: int) \<le> round_half_even m"
      by linarith
    then have "(of_int (2 ^ 52) :: real) \<le> of_int (round_half_even m)"
      by (simp only: of_int_le_iff)
    then have r: "(2 :: real) ^ 52 \<le> of_int (round_half_even m)" by simp
    have "(2 :: real) powr 1 \<le> P"
      unfolding P_def using k53 by (intro powr_mono) simp_all
    then have P2: "2 \<le> P" by simp
    have "(2 :: real) ^ 52 * 2 \<le> of_int (round_half_even m) * P"
      using r P2 by (intro mult_mono) simp_all
    moreover have "real n \<le> 2 ^ 33"
      using assms(2) by (metis of_nat_le_iff of_nat_numeral of_nat_power)
    ultimately show ?thesis
      using td by simp
  qed
qed


lemma to_double_lt_nat:
  assumes "us < int n * 1000000" and "n \<le> 2 ^ 33"
  shows "to_double (of_int us / 1000000) < real n"
proof -
  define q :: real where "q = of_int us / 1000000"
  from assms(1) have "us + 1 \<le> int n * 1000000" by simp
  then have "(of_int (us + 1) :: real) \<le> of_int (int n * 1000000)"
    by (simp only: of_int_le_iff)
  then have gap: "q + 1 / 1000000 \<le> real n"
    by (simp add: q_def field_simps)
  have nb: "real n \<le> 2 ^ 33"
    using assms(2) by (metis of_nat_le_iff of_nat_numeral of_nat_power)
  have "to_double q < real n"
  proof (cases "q = 0")
    case True
    with gap show ?thesis by (simp add: to_double_def)
  next
    case False
    define k where "k = \<lfloor>log 2 \<bar>q\<bar>\<rfloor>"
    define P :: real where "P = 2 powr of_int (k - 52)"
    define m where "m = q / P"
    have Ppos: "0 < P" by (simp add: P_def)
    have td: "to_double q = of_int (round_half_even m) * P"
      using False by (simp add: to_double_def Let_def k_def P_def m_def)
    have lo: "2 powr of_int k \<le> \<bar>q\<bar>"
      using binade(1) [OF False] by (simp add: k_def)
    have up: "of_int (round_half_even m) \<le> m + 1 / 2"
      by (rule round_half_even_upper)
    have mP: "m * P = q"
      using Ppos by (simp add: m_def)
    show ?thesis
    proof (cases "q < 0")
      case True
      have "(2 :: real) powr 52 * P = 2 powr (52 + of_int (k - 52))"
        by (simp only: P_def powr_add)
      also have "\<dots> = 2 powr of_int k"
        by simp
      finally have "2 powr 52 * P \<le> - q"
        using lo True by simp
      then have "2 powr 52 * P \<le> (- m) * P"
        using mP by simp
      with Ppos have "(2 :: real) powr 52 \<le> - m"
        by (simp only: mult_le_cancel_right_pos)
      then have "m + 1 / 2 < 0" by simp
      with up have "of_int (round_half_even m) < (0 :: real)" by linarith
      with Ppos have "of_int (round_half_even m) * P < 0"
        by (simp add: mult_neg_pos)
      with td show ?thesis
        by (metis of_nat_0_le_iff order_less_le_trans)
    next
      case nonneg: False
      with False have qpos: "0 < q" by simp
      have "q < real n"
        using gap by simp
      with nb have "q < 2 ^ 33"
        by simp
      with lo qpos have "(2 :: real) powr of_int k < 2 ^ 33"
        by simp
      also have "(2 :: real) ^ 33 = 2 powr of_int 33"
        by simp
      finally have "of_int k < (of_int 33 :: real)"
        by (simp only: powr_less_cancel_iff one_less_numeral_iff semiring_norm)
      then have "k < 33"
        by (simp only: of_int_less_iff)
      then have "of_int (k - 52) \<le> (- 20 :: real)" by simp
      then have "P \<le> 2 powr (- 20)"
        unfolding P_def by (intro powr_mono) simp_all
      then have Pb: "P \<le> 1 / 1048576"
        by (simp add: powr_minus divide_simps)
      have "of_int (round_half_even m) * P \<le> (m + 1 / 2) * P"
        using up Ppos by (simp only: mult_le_cancel_right_pos)
      also have "\<dots> = q + P / 2"
        using mP by (simp add: algebra_simps)
      also have "\<dots> < q + 1 / 1000000"
        using Pb by simp
      finally show ?thesis
        using td gap by simp
    qed
  qed
  then show ?thesis by (simp add: q_def)
qed

lemma to_double_example:
  "to_double (63082281599999999 / 1000000) = 63082281600"
proof -
  define q :: real where "q = 63082281599999999 / 1000000"
  have q0: "q \<noteq> 0" "0 < q" "\<bar>q\<bar> = q" by (simp_all add: q_def)
  have "2 powr of_int 35 \<le> q \<and> q < 2 powr of_int (35 + 1)"
    by (simp add: q_def)
  then have k: "\<lfloor>log 2 \<bar>q\<bar>\<rfloor> = 35"
    using floor_log_eq_powr_iff [of q 2 35] q0 by simp
  have "(2 :: real) powr (- 17) = 1 / 2 powr 17"
    by (simp only: powr_minus inverse_eq_divide)
  also have "\<dots> = 1 / 131072"
    by simp
  finally have P17: "(2 :: real) powr (- 17) = 1 / 131072" .
  have m: "q / (1 / 131072) = 8268320813875199 + 13577 / 15625"
    by (simp add: q_def)
  have fl: "\<lfloor>(8268320813875199 :: real) + 13577 / 15625\<rfloor> = 8268320813875199"
    by (simp add: floor_eq_iff)
  have r: "round_half_even (8268320813875199 + 13577 / 15625) = 8268320813875200"
    by (simp add: round_half_even_def Let_def fl)
  have "to_double q = of_int (round_half_even (q / (1 / 131072))) * (1 / 131072)"
    using q0(1) k by (simp add: to_double_def Let_def P17)
  also have "\<dots> = 63082281600"
    by (simp only: m r)
  finally show ?thesis by (simp add: q_def)
qed


lemma total_seconds_whole_threshold:
  assumes "n \<le> 2 ^ 33"
  shows "real n \<le> total_seconds us \<longleftrightarrow> real n \<le> of_int us / 1000000"
proof
  assume "real n \<le> of_int us / 1000000"
  then show "real n \<le> total_seconds us"
    unfolding total_seconds_def using assms by (rule to_double_ge_nat)
next
  assume a: "real n \<le> total_seconds us"
  show "real n \<le> of_int us / 1000000"
  proof (rule ccontr)
    assume "\<not> real n \<le> of_int us / 1000000"
    then have "(of_int us :: real) < of_int (int n * 1000000)"
      by (simp add: field_simps)
    then have "us < int n * 1000000"
      by (simp only: of_int_less_iff)
    then have "total_seconds us < real n"
      unfolding total_seconds_def using assms by (rule to_double_lt_nat)
    with a show False by simp
  qed
qed

subsection \<open>Stay validity\<close>

text \<open>
  C3 (amended).  A candidate is a valid stay area exactly when it has at least two points
  and, if its first and last points both carry a timestamp, the duration returned by
  \<^verbatim>\<open>total_seconds()\<close>, that is the difference of the two timestamps in microseconds
  divided by \<open>10\<^sup>6\<close> and rounded to a double, is at least \<open>min_stay_time\<close> (the boundary
  value counts), and otherwise it has at least ten points.  For a threshold of a whole
  number of seconds up to \<open>2\<^sup>3\<^sup>3\<close> the rounding makes no difference: the candidate with
  timestamps is valid exactly when the exact time difference is at least the threshold.
  A candidate of length 1 is never valid.
\<close>

theorem C3_stay_validity:
  "(is_stay_area min_stay_time area \<longleftrightarrow>
      2 \<le> length area \<and>
      (if time (hd area) \<noteq> None \<and> time (last area) \<noteq> None
       then min_stay_time \<le>
              total_seconds (int (the (time (last area))) - int (the (time (hd area))))
       else 10 \<le> length area))
   \<and> (n \<le> 2 ^ 33 \<longrightarrow>
        (is_stay_area (real n) area \<longleftrightarrow>
           2 \<le> length area \<and>
           (if time (hd area) \<noteq> None \<and> time (last area) \<noteq> None
            then real n \<le>
                   real_of_int (int (the (time (last area))) - int (the (time (hd area))))
                     / 1000000
            else 10 \<le> length area)))
   \<and> (length area = 1 \<longrightarrow> \<not> is_stay_area min_stay_time area)"
proof -
  have general: "is_stay_area t area \<longleftrightarrow>
      2 \<le> length area \<and>
      (if time (hd area) \<noteq> None \<and> time (last area) \<noteq> None
       then t \<le> total_seconds (int (the (time (last area))) - int (the (time (hd area))))
       else 10 \<le> length area)" for t
    by (auto simp: is_stay_area_def Let_def split: option.splits)
  have whole: "is_stay_area (real n) area \<longleftrightarrow>
      2 \<le> length area \<and>
      (if time (hd area) \<noteq> None \<and> time (last area) \<noteq> None
       then real n \<le>
              real_of_int (int (the (time (last area))) - int (the (time (hd area)))) / 1000000
       else 10 \<le> length area)" if "n \<le> 2 ^ 33"
    using general [of "real n"] total_seconds_whole_threshold [OF that] by simp
  have single: "\<not> is_stay_area min_stay_time area" if "length area = 1"
    using that by (simp add: is_stay_area_def)
  from general [of min_stay_time] whole single show ?thesis
    by blast
qed

theorem C3_witness:
  "is_stay_area 600 [\<lparr>lat = 0, lon = 0, time = Some 0, element = 0\<rparr>, \<lparr>lat = 0, lon = 0, time = Some 600000000, element = 1\<rparr>]
   \<and> \<not> is_stay_area 600 [\<lparr>lat = 0, lon = 0, time = Some 0, element = 0\<rparr>, \<lparr>lat = 0, lon = 0, time = Some 599999999, element = 1\<rparr>]
   \<and> \<not> is_stay_area 600 [\<lparr>lat = 0, lon = 0, time = Some 0, element = 0\<rparr>]"
proof -
  have r: "real 600 = 600" by simp
  have a: "is_stay_area (real 600) [\<lparr>lat = 0, lon = 0, time = Some 0, element = 0\<rparr>, \<lparr>lat = 0, lon = 0, time = Some 600000000, element = 1\<rparr>]"
    using conjunct1 [OF conjunct2 [OF C3_stay_validity [of 0 "[\<lparr>lat = 0, lon = 0, time = Some 0, element = 0\<rparr>, \<lparr>lat = 0, lon = 0, time = Some 600000000, element = 1\<rparr>]" 600]]]
    by simp
  have b: "\<not> is_stay_area (real 600) [\<lparr>lat = 0, lon = 0, time = Some 0, element = 0\<rparr>, \<lparr>lat = 0, lon = 0, time = Some 599999999, element = 1\<rparr>]"
    using conjunct1 [OF conjunct2 [OF C3_stay_validity [of 0 "[\<lparr>lat = 0, lon = 0, time = Some 0, element = 0\<rparr>, \<lparr>lat = 0, lon = 0, time = Some 599999999, element = 1\<rparr>]" 600]]]
    by simp
  have c: "\<not> is_stay_area 600 [\<lparr>lat = 0, lon = 0, time = Some 0, element = 0\<rparr>]"
    using conjunct2 [OF conjunct2 [OF C3_stay_validity [of 600 "[\<lparr>lat = 0, lon = 0, time = Some 0, element = 0\<rparr>]" 0]]]
    by simp
  from a b c show ?thesis
    by (simp only: r) simp
qed

text \<open>
  The claim as first stated compares the exact time difference.  With a first timestamp
  of 0 and a last one of 63082281599999999 microseconds, one microsecond short of
  63082281600 seconds, the exact difference is below a threshold of 63082281600 seconds,
  yet the rounded duration reaches it and the candidate is valid.
\<close>

theorem C3_counterexample:
  "is_stay_area 63082281600 [\<lparr>lat = 0, lon = 0, time = Some 0, element = 0\<rparr>, \<lparr>lat = 0, lon = 0, time = Some 63082281599999999, element = 1\<rparr>]
   \<and> \<not> (63082281600 \<le> real_of_int (int 63082281599999999 - int 0) / 1000000)"
proof -
  have "total_seconds 63082281599999999 = 63082281600"
    using to_double_example by (simp add: total_seconds_def)
  then show ?thesis
    by (simp add: is_stay_area_def Let_def)
qed

text \<open>
  C6.  With \<open>max_stay_points = 2\<close>, simplifying a stay area of length at least 2 returns
  exactly its first and its last point, in this order.
\<close>

theorem C6_two_point_budget:
  "2 \<le> length area \<Longrightarrow> simplify_stay_area 2 area = [hd area, last area]"
proof (cases area)
  case Nil
  assume "2 \<le> length area"
  with Nil show ?thesis by simp
next
  case (Cons a rest)
  assume len: "2 \<le> length area"
  show ?thesis
  proof (cases rest)
    case Nil
    with Cons len show ?thesis by simp
  next
    case (Cons b rest')
    with \<open>area = a # rest\<close> show ?thesis
      by (cases rest') (simp_all add: simplify_stay_area_def)
  qed
qed

theorem C6_witness:
  "simplify_stay_area 2 [\<lparr>lat = 1, lon = 2, time = None, element = 0\<rparr>,
                         \<lparr>lat = 3, lon = 4, time = None, element = 1\<rparr>,
                         \<lparr>lat = 5, lon = 6, time = None, element = 2\<rparr>]
   = [\<lparr>lat = 1, lon = 2, time = None, element = 0\<rparr>, \<lparr>lat = 5, lon = 6, time = None, element = 2\<rparr>]"
  using C6_two_point_budget [of "[\<lparr>lat = 1, lon = 2, time = None, element = 0\<rparr>,
                         \<lparr>lat = 3, lon = 4, time = None, element = 1\<rparr>,
                         \<lparr>lat = 5, lon = 6, time = None, element = 2\<rparr>]"]
  by simp

text \<open>
  C7.  For a point at position \<open>p\<close> of the sequence (whose points are distinct objects,
  so that the position found by identity is \<open>p\<close>), the turning-point test with window 5
  holds exactly when \<open>p\<close> is within 5 of either end, or the absolute difference of the
  bearings from \<open>seq[p-5]\<close> to \<open>seq[p]\<close> and from \<open>seq[p]\<close> to \<open>seq[p+5]\<close>, wrapped by
  subtracting from 360 when above 180, exceeds 30 degrees; the wrapped difference lies
  in \<open>[0, 180]\<close>.
\<close>

theorem C7_turning_point:
  assumes "distinct (map element seq)" and "p < length seq"
  shows "(is_turning_point (seq ! p) seq (index_of (seq ! p) seq) 5 \<longleftrightarrow>
            p < 5 \<or> length seq \<le> p + 5 \<or>
            30 < wrap_angle \<bar>calculate_bearing (seq ! (p - 5)) (seq ! p)
                              - calculate_bearing (seq ! p) (seq ! (p + 5))\<bar>)
         \<and> 0 \<le> wrap_angle \<bar>calculate_bearing (seq ! (p - 5)) (seq ! p)
                              - calculate_bearing (seq ! p) (seq ! (p + 5))\<bar>
         \<and> wrap_angle \<bar>calculate_bearing (seq ! (p - 5)) (seq ! p)
                              - calculate_bearing (seq ! p) (seq ! (p + 5))\<bar> \<le> 180"
proof -
  let ?b1 = "calculate_bearing (seq ! (p - 5)) (seq ! p)"
  let ?b2 = "calculate_bearing (seq ! p) (seq ! (p + 5))"
  have idx: "index_of (seq ! p) seq = int p"
    using assms by (rule index_of_nth)
  have "0 \<le> \<bar>?b1 - ?b2\<bar>" "\<bar>?b1 - ?b2\<bar> \<le> 360"
    using calculate_bearing_range [of "seq ! (p - 5)" "seq ! p"]
      calculate_bearing_range [of "seq ! p" "seq ! (p + 5)"]
    by (simp_all add: abs_le_iff)
  then have rng: "0 \<le> wrap_angle \<bar>?b1 - ?b2\<bar> \<and> wrap_angle \<bar>?b1 - ?b2\<bar> \<le> 180"
    by (rule wrap_angle_range)
  have "is_turning_point (seq ! p) seq (int p) 5 \<longleftrightarrow>
          p < 5 \<or> length seq \<le> p + 5 \<or> 30 < wrap_angle \<bar>?b1 - ?b2\<bar>"
  proof (cases "p < 5 \<or> length seq \<le> p + 5")
    case True
    with assms(2) show ?thesis
      by (auto simp: is_turning_point_def)
  next
    case False
    then have "nat (int p - 5) = p - 5" "nat (int p + 5) = p + 5"
      by simp_all
    with False assms(2) show ?thesis
      by (simp add: is_turning_point_def Let_def nat_add_distrib)
  qed
  with idx rng show ?thesis
    by simp
qed


theorem C7_witness:
  "distinct (map element
     [\<lparr>lat = 0, lon = 0, time = None, element = 0\<rparr>, \<lparr>lat = 0, lon = 18, time = None, element = 1\<rparr>,
      \<lparr>lat = 0, lon = 36, time = None, element = 2\<rparr>, \<lparr>lat = 0, lon = 54, time = None, element = 3\<rparr>,
      \<lparr>lat = 0, lon = 72, time = None, element = 4\<rparr>, \<lparr>lat = 0, lon = 90, time = None, element = 5\<rparr>,
      \<lparr>lat = 18, lon = 90, time = None, element = 6\<rparr>, \<lparr>lat = 36, lon = 90, time = None, element = 7\<rparr>,
      \<lparr>lat = 54, lon = 90, time = None, element = 8\<rparr>, \<lparr>lat = 72, lon = 90, time = None, element = 9\<rparr>,
      \<lparr>lat = 90, lon = 90, time = None, element = 10\<rparr>])
   \<and> is_turning_point \<lparr>lat = 0, lon = 90, time = None, element = 5\<rparr>
     [\<lparr>lat = 0, lon = 0, time = None, element = 0\<rparr>, \<lparr>lat = 0, lon = 18, time = None, element = 1\<rparr>,
      \<lparr>lat = 0, lon = 36, time = None, element = 2\<rparr>, \<lparr>lat = 0, lon = 54, time = None, element = 3\<rparr>,
      \<lparr>lat = 0, lon = 72, time = None, element = 4\<rparr>, \<lparr>lat = 0, lon = 90, time = None, element = 5\<rparr>,
      \<lparr>lat = 18, lon = 90, time = None, element = 6\<rparr>, \<lparr>lat = 36, lon = 90, time = None, element = 7\<rparr>,
      \<lparr>lat = 54, lon = 90, time = None, element = 8\<rparr>, \<lparr>lat = 72, lon = 90, time = None, element = 9\<rparr>,
      \<lparr>lat = 90, lon = 90, time = None, element = 10\<rparr>] 5 5"
proof -
  have b1: "calculate_bearing \<lparr>lat = 0, lon = 0, time = None, element = 0\<rparr>
              \<lparr>lat = 0, lon = 90, time = None, element = 5\<rparr> = 90"
    by (simp add: calculate_bearing_def radians_def degrees_def arctan2_def)
  have b2: "calculate_bearing \<lparr>lat = 0, lon = 90, time = None, element = 5\<rparr>
              \<lparr>lat = 90, lon = 90, time = None, element = 10\<rparr> = 0"
    by (simp add: calculate_bearing_def radians_def degrees_def arctan2_def)
  show ?thesis
    using C7_turning_point [of
     "[\<lparr>lat = 0, lon = 0, time = None, element = 0\<rparr>, \<lparr>lat = 0, lon = 18, time = None, element = 1\<rparr>,
      \<lparr>lat = 0, lon = 36, time = None, element = 2\<rparr>, \<lparr>lat = 0, lon = 54, time = None, element = 3\<rparr>,
      \<lparr>lat = 0, lon = 72, time = None, element = 4\<rparr>, \<lparr>lat = 0, lon = 90, time = None, element = 5\<rparr>,
      \<lparr>lat = 18, lon = 90, time = None, element = 6\<rparr>, \<lparr>lat = 36, lon = 90, time = None, element = 7\<rparr>,
      \<lparr>lat = 54, lon = 90, time = None, element = 8\<rparr>, \<lparr>lat = 72, lon = 90, time = None, element = 9\<rparr>,
      \<lparr>lat = 90, lon = 90, time = None, element = 10\<rparr>]" 5]
    by (simp add: b1 b2 wrap_angle_def)
qed

section \<open>Properties of the segmentation\<close>


lemma slice_Cons:
  "a < b \<Longrightarrow> a < length xs \<Longrightarrow> slice xs a b = xs ! a # slice xs (a + 1) b"
proof -
  assume ab: "a < b" and al: "a < length xs"
  from ab obtain d where d: "b - a = Suc d" and d': "b - Suc a = d"
    by (cases "b - a") auto
  from al have "drop a xs = xs ! a # drop (Suc a) xs"
    by (simp add: Cons_nth_drop_Suc)
  then show ?thesis
    by (simp add: slice_def d d')
qed

lemma slice_empty [simp]: "slice xs a a = []"
  by (simp add: slice_def)

lemma slice_snoc:
  "a \<le> b \<Longrightarrow> b < length xs \<Longrightarrow> slice xs a (b + 1) = slice xs a b @ [xs ! b]"
proof -
  assume ab: "a \<le> b" and bl: "b < length xs"
  have "take (Suc (b - a)) (drop a xs) = take (b - a) (drop a xs) @ [drop a xs ! (b - a)]"
    using ab bl by (simp add: take_Suc_conv_app_nth)
  moreover have "drop a xs ! (b - a) = xs ! b"
    using ab bl by simp
  moreover have "b + 1 - a = Suc (b - a)"
    using ab by simp
  ultimately show ?thesis
    by (simp add: slice_def)
qed

lemma slice_append:
  "a \<le> b \<Longrightarrow> b \<le> c \<Longrightarrow> slice xs a b @ slice xs b c = slice xs a c"
proof -
  assume ab: "a \<le> b" and bc: "b \<le> c"
  have "take (c - a) (drop a xs) = take (b - a) (drop a xs) @ take (c - b) (drop (b - a) (drop a xs))"
    using ab bc take_add [of "b - a" "c - b" "drop a xs"] by simp
  then show ?thesis
    using ab by (simp add: slice_def)
qed

lemma length_slice: "b \<le> length xs \<Longrightarrow> length (slice xs a b) = b - a"
  by (simp add: slice_def)

lemma set_slice_subset: "set (slice xs a b) \<subseteq> set xs"
proof -
  have "set (take (b - a) (drop a xs)) \<subseteq> set (drop a xs)"
    by (rule set_take_subset)
  also have "\<dots> \<subseteq> set xs"
    by (rule set_drop_subset)
  finally show ?thesis
    by (simp add: slice_def)
qed

lemma lookahead_Some:
  "lookahead stay_radius points c k temp = Some (k', temp') \<Longrightarrow>
     k \<le> k' \<and> k' < length points \<and> length temp + (k' - k) < 10
     \<and> dist_to (points ! k') c \<le> stay_radius
     \<and> (\<forall>m. k \<le> m \<and> m < k' \<longrightarrow> stay_radius < dist_to (points ! m) c)
     \<and> temp' = temp @ slice points k k'"
proof (induction stay_radius points c k temp rule: lookahead.induct)
  case (1 stay_radius points c k temp)
  from "1.prems" have guard: "k < length points \<and> length temp < 10"
    by (subst (asm) lookahead.simps) (simp split: if_splits)
  show ?case
  proof (cases "dist_to (points ! k) c \<le> stay_radius")
    case True
    with guard "1.prems" have "k' = k" "temp' = temp"
      by (subst (asm) lookahead.simps, simp)+
    with guard True show ?thesis by simp
  next
    case False
    with guard "1.prems"
    have rec: "lookahead stay_radius points c (k + 1) (temp @ [points ! k]) = Some (k', temp')"
      by (subst (asm) lookahead.simps) simp
    from "1.IH" [OF guard False rec]
    have ih: "k + 1 \<le> k'" "k' < length points" "length (temp @ [points ! k]) + (k' - (k + 1)) < 10"
      "dist_to (points ! k') c \<le> stay_radius"
      "\<forall>m. k + 1 \<le> m \<and> m < k' \<longrightarrow> stay_radius < dist_to (points ! m) c"
      "temp' = (temp @ [points ! k]) @ slice points (k + 1) k'"
      by auto
    have far: "stay_radius < dist_to (points ! m) c" if "k \<le> m" "m < k'" for m
    proof (cases "m = k")
      case True
      with False show ?thesis by simp
    next
      case False
      with that ih(5) show ?thesis by simp
    qed
    have "slice points k k' = points ! k # slice points (k + 1) k'"
      using ih(1) guard by (intro slice_Cons) simp_all
    with ih far show ?thesis by simp
  qed
qed

lemma lookahead_None:
  "lookahead stay_radius points c k temp = None \<Longrightarrow>
     k \<le> m \<Longrightarrow> m < length points \<Longrightarrow> length temp + (m - k) < 10 \<Longrightarrow>
     stay_radius < dist_to (points ! m) c"
proof (induction stay_radius points c k temp rule: lookahead.induct)
  case (1 stay_radius points c k temp)
  from "1.prems" have guard: "k < length points \<and> length temp < 10"
    by simp
  with "1.prems"(1) have far: "\<not> dist_to (points ! k) c \<le> stay_radius"
    by (subst (asm) lookahead.simps) (simp split: if_splits)
  with guard "1.prems"(1)
  have rec: "lookahead stay_radius points c (k + 1) (temp @ [points ! k]) = None"
    by (subst (asm) lookahead.simps) simp
  show ?case
  proof (cases "m = k")
    case True
    with far show ?thesis by simp
  next
    case False
    with "1.prems" have "k + 1 \<le> m" "length (temp @ [points ! k]) + (m - (k + 1)) < 10"
      by simp_all
    with "1.IH" [OF guard far rec] "1.prems"(3) show ?thesis by simp
  qed
qed

text \<open>
  C4.  When the next point \<open>j\<close> lies farther than \<open>stay_radius\<close> from the mean of the
  candidate, only the points \<open>j, \<dots>, j + 9\<close> are examined, each against that same mean.
  Either one of them, the first at \<open>k\<close>, is within \<open>stay_radius\<close> of it: then the whole
  run from \<open>j\<close> up to and including \<open>k\<close> is appended to the candidate and the scan goes on
  at \<open>k + 1\<close>.  Or none of the examined points is: then the candidate is closed as it
  stands, without any point of the excursion, and the cursor stays at \<open>j\<close>.
\<close>

theorem C4_excursion:
  assumes "j < length points"
    and "stay_radius < dist_to (points ! j) (center_of area)"
  shows "(\<exists>k. j \<le> k \<and> k < length points \<and> k < j + 10
            \<and> dist_to (points ! k) (center_of area) \<le> stay_radius
            \<and> (\<forall>m. j \<le> m \<and> m < k \<longrightarrow> stay_radius < dist_to (points ! m) (center_of area))
            \<and> grow stay_radius points area j
                = grow stay_radius points (area @ slice points j (k + 1)) (k + 1))
         \<or> ((\<forall>k. j \<le> k \<and> k < length points \<and> k < j + 10
                  \<longrightarrow> stay_radius < dist_to (points ! k) (center_of area))
             \<and> grow stay_radius points area j = (area, j))"
proof (cases "lookahead stay_radius points (center_of area) j []")
  case None
  have "stay_radius < dist_to (points ! k) (center_of area)"
    if "j \<le> k" "k < length points" "k < j + 10" for k
    using None that by (intro lookahead_None [of stay_radius points "center_of area" j "[]" k]) simp_all
  moreover have "grow stay_radius points area j = (area, j)"
    using assms None by (subst grow.simps) (simp add: Let_def)
  ultimately show ?thesis by blast
next
  case (Some r)
  obtain k temp where r: "r = (k, temp)" by (cases r)
  from Some r have la: "lookahead stay_radius points (center_of area) j [] = Some (k, temp)"
    by simp
  from lookahead_Some [OF la]
  have k: "j \<le> k" "k < length points" "k - j < 10"
    "dist_to (points ! k) (center_of area) \<le> stay_radius"
    "\<forall>m. j \<le> m \<and> m < k \<longrightarrow> stay_radius < dist_to (points ! m) (center_of area)"
    "temp = slice points j k"
    by simp_all
  have "slice points j (k + 1) = temp @ [points ! k]"
    using slice_snoc [OF k(1) k(2)] k(6) by simp
  moreover have "grow stay_radius points area j
      = grow stay_radius points (area @ temp @ [points ! k]) (k + 1)"
    using assms la by (subst grow.simps) (simp add: Let_def)
  ultimately have "grow stay_radius points area j
      = grow stay_radius points (area @ slice points j (k + 1)) (k + 1)"
    by simp
  moreover from k(1,3) have "k < j + 10" by simp
  ultimately show ?thesis using k by blast
qed

lemma walk_spec:
  "i < length points \<Longrightarrow>
     i \<le> walk points i \<and> walk points i < length points
     \<and> (\<forall>m. i \<le> m \<and> m < walk points i \<longrightarrow> 10 \<le> step_distance points m)
     \<and> (walk points i + 1 < length points \<longrightarrow> step_distance points (walk points i) < 10)"
proof (induction points i rule: walk.induct)
  case (1 points i)
  show ?case
  proof (cases "i + 1 < length points")
    case False
    then have "walk points i = i" by (subst walk.simps) simp
    with "1.prems" False show ?thesis by simp
  next
    case True
    show ?thesis
    proof (cases "step_distance points i < 10")
      case close: True
      with True have "walk points i = i" by (subst walk.simps) simp
      with "1.prems" close show ?thesis by simp
    next
      case far: False
      with True have w: "walk points i = walk points (i + 1)" by (subst walk.simps) simp
      from "1.IH" [OF True far] True
      have ih: "i + 1 \<le> walk points (i + 1)" "walk points (i + 1) < length points"
        "\<forall>m. i + 1 \<le> m \<and> m < walk points (i + 1) \<longrightarrow> 10 \<le> step_distance points m"
        "walk points (i + 1) + 1 < length points
           \<longrightarrow> step_distance points (walk points (i + 1)) < 10"
        by auto
      have "10 \<le> step_distance points m" if "i \<le> m" "m < walk points (i + 1)" for m
      proof (cases "m = i")
        case True
        with far show ?thesis by simp
      next
        case False
        with that ih(3) show ?thesis by simp
      qed
      with ih w show ?thesis by simp
    qed
  qed
qed

text \<open>
  C2 (amended).  Whenever the closed candidate that starts at \<open>i\<close> is invalid, the
  segmenter walks forward from \<open>i\<close> to the first index \<open>w\<close> whose point is closer than
  10 metres to the next one, or to the last index when there is no such pair.  If \<open>w\<close>
  is beyond \<open>i\<close>, the points from \<open>i\<close> up to and including \<open>w\<close> are emitted as one
  moving segment; if \<open>w = i\<close>, nothing is emitted.  In both cases the list of stay areas
  is unchanged and segmentation resumes at \<open>w + 1\<close>.
\<close>

theorem C2_invalid_candidate_walk:
  assumes "i < length points"
    and "\<not> is_stay_area min_stay_time (fst (grow stay_radius points [points ! i] (i + 1)))"
  shows "\<exists>w. i \<le> w \<and> w < length points
           \<and> (\<forall>m. i \<le> m \<and> m < w \<longrightarrow> 10 \<le> step_distance points m)
           \<and> (w + 1 < length points \<longrightarrow> step_distance points w < 10)
           \<and> outer_step stay_radius min_stay_time points (i, stay_areas, moving_segments)
               = (w + 1, stay_areas,
                  if i < w then moving_segments @ [slice points i (w + 1)]
                  else moving_segments)"
proof -
  obtain area j where g: "grow stay_radius points [points ! i] (i + 1) = (area, j)"
    by (cases "grow stay_radius points [points ! i] (i + 1)")
  with assms(2) have "\<not> is_stay_area min_stay_time area" by simp
  with g have "outer_step stay_radius min_stay_time points (i, stay_areas, moving_segments)
      = (walk points i + 1, stay_areas,
         if i < walk points i then moving_segments @ [slice points i (walk points i + 1)]
         else moving_segments)"
    by (simp add: outer_step_def Let_def)
  with walk_spec [OF assms(1)] show ?thesis by blast
qed

lemma outer_step_moving_lengths:
  assumes "i < length points" and "\<forall>seg \<in> set moving_segments. 2 \<le> length seg"
  shows "\<forall>seg \<in> set (snd (snd (outer_step stay_radius min_stay_time points
                                   (i, stay_areas, moving_segments)))). 2 \<le> length seg"
proof -
  obtain area j where g: "grow stay_radius points [points ! i] (i + 1) = (area, j)"
    by (cases "grow stay_radius points [points ! i] (i + 1)")
  from walk_spec [OF assms(1)] have w: "walk points i < length points" by simp
  have "2 \<le> length (slice points i (walk points i + 1))" if "i < walk points i"
    using that w by (simp add: length_slice)
  with assms(2) g show ?thesis
    by (auto simp: outer_step_def Let_def)
qed

lemma segment_loop_moving_lengths:
  "\<forall>seg \<in> set (snd (snd st)). 2 \<le> length seg \<Longrightarrow>
   \<forall>seg \<in> set (snd (segment_loop stay_radius min_stay_time points st)). 2 \<le> length seg"
proof (induction stay_radius min_stay_time points st rule: segment_loop.induct)
  case (1 stay_radius min_stay_time points st)
  obtain i stay_areas moving_segments where st: "st = (i, stay_areas, moving_segments)"
    by (cases st)
  show ?case
  proof (cases "i < length points")
    case False
    with st "1.prems" show ?thesis by (subst segment_loop.simps) simp
  next
    case True
    with st "1.prems"
    have "\<forall>seg \<in> set (snd (snd (outer_step stay_radius min_stay_time points st))).
            2 \<le> length seg"
      using outer_step_moving_lengths [of i points moving_segments] by simp
    with "1.IH" True st
    have "\<forall>seg \<in> set (snd (segment_loop stay_radius min_stay_time points
             (outer_step stay_radius min_stay_time points st))). 2 \<le> length seg"
      by simp
    with True st show ?thesis by (subst segment_loop.simps) simp
  qed
qed

text \<open>
  C10.  Every moving segment returned by the segmenter has at least two points; and when
  the candidate at \<open>i\<close> is invalid and the point at \<open>i\<close> is already closer than 10 metres
  to the next one, the step emits no moving segment and only moves the cursor to
  \<open>i + 1\<close>.
\<close>

theorem C10_moving_segments_have_two_points:
  "(\<forall>seg \<in> set (snd (identify_stay_areas_improved stay_radius min_stay_time points)).
      2 \<le> length seg)
   \<and> (i < length points
      \<and> \<not> is_stay_area min_stay_time (fst (grow stay_radius points [points ! i] (i + 1)))
      \<and> i + 1 < length points \<and> step_distance points i < 10
      \<longrightarrow> outer_step stay_radius min_stay_time points (i, stay_areas, moving_segments)
            = (i + 1, stay_areas, moving_segments))"
proof -
  have a: "\<forall>seg \<in> set (snd (identify_stay_areas_improved stay_radius min_stay_time points)).
      2 \<le> length seg"
    using segment_loop_moving_lengths [of "(0, [], [])" stay_radius min_stay_time points]
    by (simp add: identify_stay_areas_improved_def)
  have b: "outer_step stay_radius min_stay_time points (i, stay_areas, moving_segments)
            = (i + 1, stay_areas, moving_segments)"
    if "i < length points"
      "\<not> is_stay_area min_stay_time (fst (grow stay_radius points [points ! i] (i + 1)))"
      "i + 1 < length points" "step_distance points i < 10"
  proof -
    obtain area j where g: "grow stay_radius points [points ! i] (i + 1) = (area, j)"
      by (cases "grow stay_radius points [points ! i] (i + 1)")
    from that(3,4) have "walk points i = i" by (subst walk.simps) simp
    with that(2) g show ?thesis
      by (simp add: outer_step_def Let_def)
  qed
  from a b show ?thesis by blast
qed


subsection \<open>Concrete runs\<close>

lemma haversine_antipodal:
  "haversine_distance 0 180 0 0 = pi * 6371000" "haversine_distance 0 0 0 180 = pi * 6371000"
  by (simp_all add: haversine_distance_def haversine_a_def radians_def)

lemma antipodal_far: "(100::real) < pi * 6371000" "\<not> pi * 6371000 < (10::real)"
  using pi_ge_two by simp_all

theorem C4_witness:
  "1 < length [\<lparr>lat = 0, lon = 0, time = None, element = 0\<rparr>, \<lparr>lat = 0, lon = 180, time = None, element = 1\<rparr>, \<lparr>lat = 0, lon = 0, time = None, element = 2\<rparr>]
   \<and> 100 < dist_to ([\<lparr>lat = 0, lon = 0, time = None, element = 0\<rparr>, \<lparr>lat = 0, lon = 180, time = None, element = 1\<rparr>, \<lparr>lat = 0, lon = 0, time = None, element = 2\<rparr>] ! 1) (center_of [\<lparr>lat = 0, lon = 0, time = None, element = 0\<rparr>])
   \<and> grow 100 [\<lparr>lat = 0, lon = 0, time = None, element = 0\<rparr>, \<lparr>lat = 0, lon = 180, time = None, element = 1\<rparr>, \<lparr>lat = 0, lon = 0, time = None, element = 2\<rparr>] [\<lparr>lat = 0, lon = 0, time = None, element = 0\<rparr>] 1 = ([\<lparr>lat = 0, lon = 0, time = None, element = 0\<rparr>, \<lparr>lat = 0, lon = 180, time = None, element = 1\<rparr>, \<lparr>lat = 0, lon = 0, time = None, element = 2\<rparr>], 3)
   \<and> ((\<exists>k. 1 \<le> k \<and> k < length [\<lparr>lat = 0, lon = 0, time = None, element = 0\<rparr>, \<lparr>lat = 0, lon = 180, time = None, element = 1\<rparr>, \<lparr>lat = 0, lon = 0, time = None, element = 2\<rparr>] \<and> k < 1 + 10
            \<and> dist_to ([\<lparr>lat = 0, lon = 0, time = None, element = 0\<rparr>, \<lparr>lat = 0, lon = 180, time = None, element = 1\<rparr>, \<lparr>lat = 0, lon = 0, time = None, element = 2\<rparr>] ! k) (center_of [\<lparr>lat = 0, lon = 0, time = None, element = 0\<rparr>]) \<le> 100
            \<and> (\<forall>m. 1 \<le> m \<and> m < k \<longrightarrow> 100 < dist_to ([\<lparr>lat = 0, lon = 0, time = None, element = 0\<rparr>, \<lparr>lat = 0, lon = 180, time = None, element = 1\<rparr>, \<lparr>lat = 0, lon = 0, time = None, element = 2\<rparr>] ! m) (center_of [\<lparr>lat = 0, lon = 0, time = None, element = 0\<rparr>]))
            \<and> grow 100 [\<lparr>lat = 0, lon = 0, time = None, element = 0\<rparr>, \<lparr>lat = 0, lon = 180, time = None, element = 1\<rparr>, \<lparr>lat = 0, lon = 0, time = None, element = 2\<rparr>] [\<lparr>lat = 0, lon = 0, time = None, element = 0\<rparr>] 1
                = grow 100 [\<lparr>lat = 0, lon = 0, time = None, element = 0\<rparr>, \<lparr>lat = 0, lon = 180, time = None, element = 1\<rparr>, \<lparr>lat = 0, lon = 0, time = None, element = 2\<rparr>] ([\<lparr>lat = 0, lon = 0, time = None, element = 0\<rparr>] @ slice [\<lparr>lat = 0, lon = 0, time = None, element = 0\<rparr>, \<lparr>lat = 0, lon = 180, time = None, element = 1\<rparr>, \<lparr>lat = 0, lon = 0, time = None, element = 2\<rparr>] 1 (k + 1)) (k + 1))
         \<or> ((\<forall>k. 1 \<le> k \<and> k < length [\<lparr>lat = 0, lon = 0, time = None, element = 0\<rparr>, \<lparr>lat = 0, lon = 180, time = None, element = 1\<rparr>, \<lparr>lat = 0, lon = 0, time = None, element = 2\<rparr>] \<and> k < 1 + 10
                  \<longrightarrow> 100 < dist_to ([\<lparr>lat = 0, lon = 0, time = None, element = 0\<rparr>, \<lparr>lat = 0, lon = 180, time = None, element = 1\<rparr>, \<lparr>lat = 0, lon = 0, time = None, element = 2\<rparr>] ! k) (center_of [\<lparr>lat = 0, lon = 0, time = None, element = 0\<rparr>]))
             \<and> grow 100 [\<lparr>lat = 0, lon = 0, time = None, element = 0\<rparr>, \<lparr>lat = 0, lon = 180, time = None, element = 1\<rparr>, \<lparr>lat = 0, lon = 0, time = None, element = 2\<rparr>] [\<lparr>lat = 0, lon = 0, time = None, element = 0\<rparr>] 1 = ([\<lparr>lat = 0, lon = 0, time = None, element = 0\<rparr>], 1)))"
proof -
  have h1: "1 < length [\<lparr>lat = 0, lon = 0, time = None, element = 0\<rparr>, \<lparr>lat = 0, lon = 180, time = None, element = 1\<rparr>, \<lparr>lat = 0, lon = 0, time = None, element = 2\<rparr>]"
    by simp
  have h2: "100 < dist_to ([\<lparr>lat = 0, lon = 0, time = None, element = 0\<rparr>, \<lparr>lat = 0, lon = 180, time = None, element = 1\<rparr>, \<lparr>lat = 0, lon = 0, time = None, element = 2\<rparr>] ! 1) (center_of [\<lparr>lat = 0, lon = 0, time = None, element = 0\<rparr>])"
    using antipodal_far by (simp add: center_of_def dist_to_def haversine_antipodal)
  have g: "grow 100 [\<lparr>lat = 0, lon = 0, time = None, element = 0\<rparr>, \<lparr>lat = 0, lon = 180, time = None, element = 1\<rparr>, \<lparr>lat = 0, lon = 0, time = None, element = 2\<rparr>] [\<lparr>lat = 0, lon = 0, time = None, element = 0\<rparr>] 1 = ([\<lparr>lat = 0, lon = 0, time = None, element = 0\<rparr>, \<lparr>lat = 0, lon = 180, time = None, element = 1\<rparr>, \<lparr>lat = 0, lon = 0, time = None, element = 2\<rparr>], 3)"
    using antipodal_far
    by (simp add: grow.simps lookahead.simps center_of_def dist_to_def haversine_antipodal
        haversine_distance_same)
  show ?thesis
    by (intro conjI h1 h2 g C4_excursion [OF h1 h2])
qed

theorem C2_counterexample:
  "\<not> is_stay_area 600 (fst (grow 100 [\<lparr>lat = 0, lon = 0, time = None, element = 0\<rparr>, \<lparr>lat = 0, lon = 0, time = None, element = 1\<rparr>] [[\<lparr>lat = 0, lon = 0, time = None, element = 0\<rparr>, \<lparr>lat = 0, lon = 0, time = None, element = 1\<rparr>] ! 0] (0 + 1)))
   \<and> step_distance [\<lparr>lat = 0, lon = 0, time = None, element = 0\<rparr>, \<lparr>lat = 0, lon = 0, time = None, element = 1\<rparr>] 0 < 10
   \<and> slice [\<lparr>lat = 0, lon = 0, time = None, element = 0\<rparr>, \<lparr>lat = 0, lon = 0, time = None, element = 1\<rparr>] 0 (0 + 1) = [\<lparr>lat = 0, lon = 0, time = None, element = 0\<rparr>]
   \<and> outer_step 100 600 [\<lparr>lat = 0, lon = 0, time = None, element = 0\<rparr>, \<lparr>lat = 0, lon = 0, time = None, element = 1\<rparr>] (0, [], []) = (1, [], [])
   \<and> snd (snd (outer_step 100 600 [\<lparr>lat = 0, lon = 0, time = None, element = 0\<rparr>, \<lparr>lat = 0, lon = 0, time = None, element = 1\<rparr>] (0, [], []))) \<noteq> [] @ [slice [\<lparr>lat = 0, lon = 0, time = None, element = 0\<rparr>, \<lparr>lat = 0, lon = 0, time = None, element = 1\<rparr>] 0 (0 + 1)]"
  by (simp add: outer_step_def grow.simps lookahead.simps walk.simps center_of_def dist_to_def
      step_distance_def is_stay_area_def haversine_distance_same slice_def)

theorem C2_witness:
  "0 < length [\<lparr>lat = 0, lon = 0, time = None, element = 0\<rparr>, \<lparr>lat = 0, lon = 180, time = None, element = 1\<rparr>]
   \<and> \<not> is_stay_area 600 (fst (grow 100 [\<lparr>lat = 0, lon = 0, time = None, element = 0\<rparr>, \<lparr>lat = 0, lon = 180, time = None, element = 1\<rparr>] [[\<lparr>lat = 0, lon = 0, time = None, element = 0\<rparr>, \<lparr>lat = 0, lon = 180, time = None, element = 1\<rparr>] ! 0] (0 + 1)))
   \<and> outer_step 100 600 [\<lparr>lat = 0, lon = 0, time = None, element = 0\<rparr>, \<lparr>lat = 0, lon = 180, time = None, element = 1\<rparr>] (0, [], []) = (2, [], [[\<lparr>lat = 0, lon = 0, time = None, element = 0\<rparr>, \<lparr>lat = 0, lon = 180, time = None, element = 1\<rparr>]])
   \<and> (\<exists>w. 0 \<le> w \<and> w < length [\<lparr>lat = 0, lon = 0, time = None, element = 0\<rparr>, \<lparr>lat = 0, lon = 180, time = None, element = 1\<rparr>]
           \<and> (\<forall>m. 0 \<le> m \<and> m < w \<longrightarrow> 10 \<le> step_distance [\<lparr>lat = 0, lon = 0, time = None, element = 0\<rparr>, \<lparr>lat = 0, lon = 180, time = None, element = 1\<rparr>] m)
           \<and> (w + 1 < length [\<lparr>lat = 0, lon = 0, time = None, element = 0\<rparr>, \<lparr>lat = 0, lon = 180, time = None, element = 1\<rparr>] \<longrightarrow> step_distance [\<lparr>lat = 0, lon = 0, time = None, element = 0\<rparr>, \<lparr>lat = 0, lon = 180, time = None, element = 1\<rparr>] w < 10)
           \<and> outer_step 100 600 [\<lparr>lat = 0, lon = 0, time = None, element = 0\<rparr>, \<lparr>lat = 0, lon = 180, time = None, element = 1\<rparr>] (0, [], [])
               = (w + 1, [], if 0 < w then [] @ [slice [\<lparr>lat = 0, lon = 0, time = None, element = 0\<rparr>, \<lparr>lat = 0, lon = 180, time = None, element = 1\<rparr>] 0 (w + 1)] else []))"
proof -
  have h1: "0 < length [\<lparr>lat = 0, lon = 0, time = None, element = 0\<rparr>, \<lparr>lat = 0, lon = 180, time = None, element = 1\<rparr>]"
    by simp
  have h2: "\<not> is_stay_area 600 (fst (grow 100 [\<lparr>lat = 0, lon = 0, time = None, element = 0\<rparr>, \<lparr>lat = 0, lon = 180, time = None, element = 1\<rparr>] [[\<lparr>lat = 0, lon = 0, time = None, element = 0\<rparr>, \<lparr>lat = 0, lon = 180, time = None, element = 1\<rparr>] ! 0] (0 + 1)))"
    using antipodal_far
    by (simp add: grow.simps lookahead.simps center_of_def dist_to_def is_stay_area_def
        haversine_antipodal)
  have v: "outer_step 100 600 [\<lparr>lat = 0, lon = 0, time = None, element = 0\<rparr>, \<lparr>lat = 0, lon = 180, time = None, element = 1\<rparr>] (0, [], []) = (2, [], [[\<lparr>lat = 0, lon = 0, time = None, element = 0\<rparr>, \<lparr>lat = 0, lon = 180, time = None, element = 1\<rparr>]])"
    using antipodal_far
    by (simp add: outer_step_def grow.simps lookahead.simps walk.simps center_of_def dist_to_def
        step_distance_def is_stay_area_def haversine_antipodal slice_def)
  show ?thesis
    by (intro conjI h1 h2 v C2_invalid_candidate_walk [OF h1 h2])
qed

theorem C10_witness:
  "identify_stay_areas_improved 100 600 [\<lparr>lat = 0, lon = 0, time = None, element = 0\<rparr>, \<lparr>lat = 0, lon = 180, time = None, element = 1\<rparr>] = ([], [[\<lparr>lat = 0, lon = 0, time = None, element = 0\<rparr>, \<lparr>lat = 0, lon = 180, time = None, element = 1\<rparr>]])
   \<and> 2 \<le> length (hd (snd (identify_stay_areas_improved 100 600 [\<lparr>lat = 0, lon = 0, time = None, element = 0\<rparr>, \<lparr>lat = 0, lon = 180, time = None, element = 1\<rparr>])))
   \<and> outer_step 100 600 [\<lparr>lat = 0, lon = 0, time = None, element = 0\<rparr>, \<lparr>lat = 0, lon = 0, time = None, element = 1\<rparr>] (0, [], []) = (0 + 1, [], [])"
proof -
  have v: "identify_stay_areas_improved 100 600 [\<lparr>lat = 0, lon = 0, time = None, element = 0\<rparr>, \<lparr>lat = 0, lon = 180, time = None, element = 1\<rparr>] = ([], [[\<lparr>lat = 0, lon = 0, time = None, element = 0\<rparr>, \<lparr>lat = 0, lon = 180, time = None, element = 1\<rparr>]])"
    using antipodal_far
    by (simp add: identify_stay_areas_improved_def segment_loop.simps outer_step_def grow.simps
        lookahead.simps walk.simps center_of_def dist_to_def slice_def
        step_distance_def is_stay_area_def haversine_distance_same haversine_antipodal)
  have p: "0 < length [\<lparr>lat = 0, lon = 0, time = None, element = 0\<rparr>, \<lparr>lat = 0, lon = 0, time = None, element = 1\<rparr>]
      \<and> \<not> is_stay_area 600 (fst (grow 100 [\<lparr>lat = 0, lon = 0, time = None, element = 0\<rparr>, \<lparr>lat = 0, lon = 0, time = None, element = 1\<rparr>] [[\<lparr>lat = 0, lon = 0, time = None, element = 0\<rparr>, \<lparr>lat = 0, lon = 0, time = None, element = 1\<rparr>] ! 0] (0 + 1)))
      \<and> 0 + 1 < length [\<lparr>lat = 0, lon = 0, time = None, element = 0\<rparr>, \<lparr>lat = 0, lon = 0, time = None, element = 1\<rparr>] \<and> step_distance [\<lparr>lat = 0, lon = 0, time = None, element = 0\<rparr>, \<lparr>lat = 0, lon = 0, time = None, element = 1\<rparr>] 0 < 10"
    by (simp add: grow.simps lookahead.simps center_of_def dist_to_def
        step_distance_def is_stay_area_def haversine_distance_same)
  from C10_moving_segments_have_two_points [of 100 600 "[\<lparr>lat = 0, lon = 0, time = None, element = 0\<rparr>, \<lparr>lat = 0, lon = 180, time = None, element = 1\<rparr>]"]
  have "\<forall>seg \<in> set (snd (identify_stay_areas_improved 100 600 [\<lparr>lat = 0, lon = 0, time = None, element = 0\<rparr>, \<lparr>lat = 0, lon = 180, time = None, element = 1\<rparr>])). 2 \<le> length seg"
    by (rule conjunct1)
  with v have a: "2 \<le> length (hd (snd (identify_stay_areas_improved 100 600 [\<lparr>lat = 0, lon = 0, time = None, element = 0\<rparr>, \<lparr>lat = 0, lon = 180, time = None, element = 1\<rparr>])))"
    by simp
  from C10_moving_segments_have_two_points [of 100 600 "[\<lparr>lat = 0, lon = 0, time = None, element = 0\<rparr>, \<lparr>lat = 0, lon = 0, time = None, element = 1\<rparr>]" 0 "[]" "[]"] p
  have b: "outer_step 100 600 [\<lparr>lat = 0, lon = 0, time = None, element = 0\<rparr>, \<lparr>lat = 0, lon = 0, time = None, element = 1\<rparr>] (0, [], []) = (0 + 1, [], [])"
    by blast
  from v a b show ?thesis
    by (intro conjI)
qed


section \<open>Properties of the override zone\<close>

text \<open>
  C1.  A run of more than \<open>targetCount\<close> points inside the zone, with timestamps, should
  come back with at most \<open>targetCount\<close> points.  The code does not do so when the first
  point of the run is neither its earliest nor its latest: with the target count 2 of
  the source and three points in the zone stamped 5, 1 and 9, the first point is kept,
  the earliest and the latest are added, nothing is cut, and all three points are
  returned, sorted by time, both by \<^verbatim>\<open>_simplify_bupt_cluster\<close> and by the whole
  pre-processing loop.
\<close>

theorem C1_zone_filter_exceeds_target:
  "is_in_bupt_area (3996 / 100) (116358 / 1000)
   \<and> simplify_bupt_cluster 2
       [\<lparr>lat = 3996 / 100, lon = 116358 / 1000, time = Some 5, element = 0\<rparr>,
        \<lparr>lat = 3996 / 100, lon = 116358 / 1000, time = Some 1, element = 1\<rparr>,
        \<lparr>lat = 3996 / 100, lon = 116358 / 1000, time = Some 9, element = 2\<rparr>]
     = Inr [\<lparr>lat = 3996 / 100, lon = 116358 / 1000, time = Some 1, element = 1\<rparr>,
            \<lparr>lat = 3996 / 100, lon = 116358 / 1000, time = Some 5, element = 0\<rparr>,
            \<lparr>lat = 3996 / 100, lon = 116358 / 1000, time = Some 9, element = 2\<rparr>]
   \<and> bupt_preprocess 2
       [\<lparr>lat = 3996 / 100, lon = 116358 / 1000, time = Some 5, element = 0\<rparr>,
        \<lparr>lat = 3996 / 100, lon = 116358 / 1000, time = Some 1, element = 1\<rparr>,
        \<lparr>lat = 3996 / 100, lon = 116358 / 1000, time = Some 9, element = 2\<rparr>]
     = Inr [\<lparr>lat = 3996 / 100, lon = 116358 / 1000, time = Some 1, element = 1\<rparr>,
            \<lparr>lat = 3996 / 100, lon = 116358 / 1000, time = Some 5, element = 0\<rparr>,
            \<lparr>lat = 3996 / 100, lon = 116358 / 1000, time = Some 9, element = 2\<rparr>]"
  by (simp add: is_in_bupt_area_def bupt_preprocess_def simplify_bupt_cluster_def
      keep_extremes_def time_key_def Let_def)


section \<open>Stay areas are disjoint slices of the input\<close>

lemma slice_single: "i < length xs \<Longrightarrow> [xs ! i] = slice xs i (i + 1)"
  using slice_Cons [of i "i + 1" xs] by simp

lemma grow_slice:
  "area = slice points i j \<Longrightarrow> i \<le> j \<Longrightarrow> j \<le> length points \<Longrightarrow>
   grow stay_radius points area j = (area', j') \<Longrightarrow>
   area' = slice points i j' \<and> j \<le> j' \<and> j' \<le> length points"
proof (induction stay_radius points area j rule: grow.induct)
  case (1 stay_radius points area j)
  show ?case
  proof (cases "j < length points")
    case False
    with "1.prems"(4) have "area' = area" "j' = j"
      by (subst (asm) grow.simps, simp)+
    with "1.prems" show ?thesis by simp
  next
    case True
    show ?thesis
    proof (cases "dist_to (points ! j) (center_of area) \<le> stay_radius")
      case near: True
      with True "1.prems"(4)
      have g: "grow stay_radius points (area @ [points ! j]) (j + 1) = (area', j')"
        by (subst (asm) grow.simps) (simp add: Let_def)
      have "area @ [points ! j] = slice points i (j + 1)"
        using "1.prems"(1,2) True slice_snoc [of i j points] by simp
      from "1.IH"(1) [OF True refl near this _ _ g] "1.prems"(2) True
      show ?thesis by simp
    next
      case far: False
      show ?thesis
      proof (cases "lookahead stay_radius points (center_of area) j []")
        case None
        with True far "1.prems"(4) have "area' = area" "j' = j"
          by (subst (asm) grow.simps, simp add: Let_def)+
        with "1.prems" show ?thesis by simp
      next
        case (Some r)
        obtain k temp where r: "r = (k, temp)" by (cases r)
        with Some have la: "lookahead stay_radius points (center_of area) j [] = Some (k, temp)"
          by simp
        from lookahead_Some [OF la] have k: "j \<le> k" "k < length points" "temp = slice points j k"
          by simp_all
        from True far la "1.prems"(4)
        have g: "grow stay_radius points (area @ temp @ [points ! k]) (k + 1) = (area', j')"
          by (subst (asm) grow.simps) (simp add: Let_def)
        have "area @ temp = slice points i k"
          using "1.prems"(1,2) k by (simp add: slice_append)
        then have "area @ temp @ [points ! k] = slice points i (k + 1)"
          using "1.prems"(2) k slice_snoc [of i k points] by simp
        from "1.IH"(2) [OF True refl far Some r [symmetric] this _ _ g] "1.prems"(2) k
        show ?thesis by simp
      qed
    qed
  qed
qed


lemma slice_facts:
  assumes "distinct xs" and "a \<le> b"
  shows "distinct (slice xs a b)"
    and "set (slice xs a b) \<subseteq> set (take b xs)"
    and "set (slice xs a b) \<inter> set (take a xs) = {}"
proof -
  show "distinct (slice xs a b)"
    using assms(1) by (simp add: slice_def)
  have "slice xs a b = drop a (take b xs)"
    by (simp add: slice_def drop_take)
  then show "set (slice xs a b) \<subseteq> set (take b xs)"
    by (simp add: set_drop_subset)
  have "set (slice xs a b) \<subseteq> set (drop a xs)"
    by (simp add: slice_def set_take_subset)
  moreover have "set (take a xs) \<inter> set (drop a xs) = {}"
    using assms(1) by (rule set_take_disj_set_drop_if_distinct) simp
  ultimately show "set (slice xs a b) \<inter> set (take a xs) = {}"
    by blast
qed

lemma outer_step_areas:
  assumes "distinct points" and "i < length points"
    and "distinct (concat stay_areas)"
    and "set (concat stay_areas) \<subseteq> set (take i points)"
    and "[] \<notin> set stay_areas"
    and "outer_step stay_radius min_stay_time points (i, stay_areas, moving_segments)
           = (i', stay_areas', moving_segments')"
  shows "i' \<le> length points \<and> distinct (concat stay_areas')
         \<and> set (concat stay_areas') \<subseteq> set (take i' points) \<and> [] \<notin> set stay_areas'"
proof -
  obtain area j where g: "grow stay_radius points [points ! i] (i + 1) = (area, j)"
    by (cases "grow stay_radius points [points ! i] (i + 1)")
  have "[points ! i] = slice points i (i + 1)"
    using assms(2) by (rule slice_single)
  from grow_slice [OF this _ _ g] assms(2)
  have a: "area = slice points i j" "i + 1 \<le> j" "j \<le> length points"
    by simp_all
  show ?thesis
  proof (cases "is_stay_area min_stay_time area")
    case True
    with g assms(6) have eq: "i' = j" "stay_areas' = stay_areas @ [area]"
      by (simp_all add: outer_step_def)
    from a(2) have ij: "i \<le> j" by simp
    note sf = slice_facts [OF assms(1) ij]
    have sub: "set (take i points) \<subseteq> set (take j points)"
      using ij by (rule set_take_subset_set_take)
    have d: "distinct (concat (stay_areas @ [area]))"
      using assms(3,4) sf(1,3) a(1) by auto
    have s: "set (concat (stay_areas @ [area])) \<subseteq> set (take j points)"
      using assms(4) sub sf(2) a(1) by auto
    have "area \<noteq> []"
      using True by (auto simp: is_stay_area_def)
    with d s eq a(3) assms(5) show ?thesis by simp
  next
    case False
    with g assms(6) have eq: "i' = walk points i + 1" "stay_areas' = stay_areas"
      by (simp_all add: outer_step_def Let_def)
    from walk_spec [OF assms(2)] have w: "i \<le> walk points i" "walk points i < length points"
      by simp_all
    then have "set (take i points) \<subseteq> set (take (walk points i + 1) points)"
      by (intro set_take_subset_set_take) simp
    with eq w assms(3,4,5) show ?thesis by auto
  qed
qed

lemma segment_loop_areas:
  assumes "distinct points"
  shows "fst st \<le> length points \<Longrightarrow> distinct (concat (fst (snd st))) \<Longrightarrow>
     set (concat (fst (snd st))) \<subseteq> set (take (fst st) points) \<Longrightarrow>
     [] \<notin> set (fst (snd st)) \<Longrightarrow>
     distinct (concat (fst (segment_loop stay_radius min_stay_time points st)))
     \<and> set (concat (fst (segment_loop stay_radius min_stay_time points st))) \<subseteq> set points
     \<and> [] \<notin> set (fst (segment_loop stay_radius min_stay_time points st))"
  using assms
proof (induction stay_radius min_stay_time points st rule: segment_loop.induct)
  case (1 stay_radius min_stay_time points st)
  obtain i stay_areas moving_segments where st: "st = (i, stay_areas, moving_segments)"
    by (cases st)
  show ?case
  proof (cases "i < length points")
    case False
    then have "segment_loop stay_radius min_stay_time points st = snd st"
      using st by (subst segment_loop.simps) simp
    moreover have "set (take i points) \<subseteq> set points"
      by (rule set_take_subset)
    ultimately show ?thesis
      using "1.prems" st by auto
  next
    case True
    obtain i' stay_areas' moving_segments'
      where os: "outer_step stay_radius min_stay_time points st = (i', stay_areas', moving_segments')"
      by (cases "outer_step stay_radius min_stay_time points st")
    from outer_step_areas [OF "1.prems"(5) True _ _ _ os [unfolded st]] "1.prems"(2,3,4) st
    have inv: "i' \<le> length points" "distinct (concat stay_areas')"
      "set (concat stay_areas') \<subseteq> set (take i' points)" "[] \<notin> set stay_areas'"
      by simp_all
    have "segment_loop stay_radius min_stay_time points st
        = segment_loop stay_radius min_stay_time points
            (outer_step stay_radius min_stay_time points st)"
      using True st by (subst segment_loop.simps) simp
    moreover from "1.IH" [OF _ _ _ _ _ "1.prems"(5)] True st os inv
    have "distinct (concat (fst (segment_loop stay_radius min_stay_time points
              (outer_step stay_radius min_stay_time points st))))
        \<and> set (concat (fst (segment_loop stay_radius min_stay_time points
              (outer_step stay_radius min_stay_time points st)))) \<subseteq> set points
        \<and> [] \<notin> set (fst (segment_loop stay_radius min_stay_time points
              (outer_step stay_radius min_stay_time points st)))"
      by simp
    ultimately show ?thesis by simp
  qed
qed

lemma identify_areas:
  assumes "distinct points"
  shows "distinct (concat (fst (identify_stay_areas_improved stay_radius min_stay_time points)))
     \<and> set (concat (fst (identify_stay_areas_improved stay_radius min_stay_time points)))
         \<subseteq> set points
     \<and> [] \<notin> set (fst (identify_stay_areas_improved stay_radius min_stay_time points))"
proof (cases "points = []")
  case True
  then show ?thesis by (simp add: identify_stay_areas_improved_def)
next
  case False
  with segment_loop_areas [OF assms, of "(0, [], [])" stay_radius min_stay_time]
  show ?thesis by (simp add: identify_stay_areas_improved_def)
qed

section \<open>Simplification keeps points of the area\<close>

lemma dedup_ids_set: "set (dedup_ids seen xs) \<subseteq> set xs"
  by (induction seen xs rule: dedup_ids.induct) auto

lemma dedup_ids_elements:
  "element ` set (dedup_ids seen xs) \<inter> set seen = {}
   \<and> distinct (map element (dedup_ids seen xs))"
proof (induction seen xs rule: dedup_ids.induct)
  case (1 seen)
  then show ?case by simp
next
  case (2 seen p ps)
  show ?case
  proof (cases "element p \<in> set seen")
    case True
    with 2 show ?thesis by simp
  next
    case False
    with "2.IH"(2) have "element ` set (dedup_ids (element p # seen) ps) \<inter> set (element p # seen) = {}"
      and "distinct (map element (dedup_ids (element p # seen) ps))"
      by simp_all
    with False show ?thesis by auto
  qed
qed

lemma dedup_ids_distinct: "distinct (dedup_ids seen xs)"
  using dedup_ids_elements [of seen xs] by (simp add: distinct_map)

lemma nearest_fold_mem:
  "snd (fold (\<lambda>p (min_distance, center_point).
                  if closer (dist_to p c) min_distance then (Some (dist_to p c), p)
                  else (min_distance, center_point)) ps (d, start)) \<in> insert start (set ps)"
proof (induction ps arbitrary: d start)
  case Nil
  then show ?case by simp
next
  case (Cons p ps)
  show ?case
  proof (cases "closer (dist_to p c) d")
    case True
    with Cons.IH [of "Some (dist_to p c)" p] show ?thesis by auto
  next
    case False
    with Cons.IH [of d start] show ?thesis by auto
  qed
qed

lemma nearest_to_center_mem: "nearest_to_center c ps start \<in> insert start (set ps)"
  unfolding nearest_to_center_def by (rule nearest_fold_mem)

lemma simplify_stay_area_subset: "set (simplify_stay_area n area) \<subseteq> set area"
proof (cases "length area \<le> n")
  case True
  then show ?thesis by (simp add: simplify_stay_area_def)
next
  case False
  then have ne: "area \<noteq> []" by auto
  then have h: "hd area \<in> set area" and l: "last area \<in> set area"
    by simp_all
  from ne have m: "area ! (length area div 2) \<in> set area"
    by (simp add: nth_mem)
  have c: "nearest_to_center (center_of area) area (hd area) \<in> set area"
    using nearest_to_center_mem [of "center_of area" area "hd area"] h by auto
  have d: "set (dedup_ids [] xs) \<subseteq> set area" if "set xs \<subseteq> set area" for xs
    using that dedup_ids_set [of "[]" xs] by blast
  from False h l m c show ?thesis
    by (auto simp: simplify_stay_area_def Let_def intro!: d [THEN subsetD])
qed

lemma simplify_stay_area_distinct:
  assumes "distinct area"
  shows "distinct (simplify_stay_area n area)"
proof (cases "length area \<le> n")
  case True
  with assms show ?thesis by (simp add: simplify_stay_area_def)
next
  case False
  show ?thesis
  proof (cases "n = 2")
    case True
    with False have len: "2 < length area" by simp
    then have ne: "area \<noteq> []" by auto
    have "hd area = area ! 0" using ne by (simp add: hd_conv_nth)
    moreover have "last area = area ! (length area - 1)" using ne by (simp add: last_conv_nth)
    moreover have "area ! 0 \<noteq> area ! (length area - 1)"
    proof
      assume eq: "area ! 0 = area ! (length area - 1)"
      have "0 < length area" and "length area - 1 < length area"
        using len by linarith+
      from nth_eq_iff_index_eq [OF assms this] eq have "0 = length area - 1"
        by blast
      with len show False by simp
    qed
    ultimately show ?thesis
      using True False by (simp add: simplify_stay_area_def)
  next
    case n2: False
    with False show ?thesis
      by (simp add: simplify_stay_area_def Let_def dedup_ids_distinct)
  qed
qed

section \<open>The routing loop\<close>

lemma areas_disjoint:
  assumes "distinct (concat xss)" and "a \<in> set xss" and "b \<in> set xss"
    and "x \<in> set a" and "x \<in> set b"
  shows "a = b"
  using assms by (auto simp: distinct_concat_iff)

lemma areas_distinct:
  assumes "distinct (concat xss)" and "a \<in> set xss"
  shows "distinct a"
  using assms by (auto simp: distinct_concat_iff)

lemma element_inj:
  assumes "distinct (map element points)" and "x \<in> set points" and "y \<in> set points"
    and "element x = element y"
  shows "x = y"
  using assms by (auto simp: distinct_map dest: inj_onD)

lemma stay_member:
  assumes "distinct (map element points)" and "set (concat stay_areas) \<subseteq> set points"
    and "p \<in> set points"
  shows "element p \<in> stay_points_set stay_areas \<longleftrightarrow> p \<in> set (concat stay_areas)"
proof
  assume "element p \<in> stay_points_set stay_areas"
  then obtain q where q: "element p = element q" "q \<in> set (concat stay_areas)"
    unfolding stay_points_set_def by (rule imageE)
  with assms(2) have "q \<in> set points" by blast
  from element_inj [OF assms(1) this assms(3) q(1) [symmetric]] q(2)
  show "p \<in> set (concat stay_areas)" by simp
next
  assume "p \<in> set (concat stay_areas)"
  then show "element p \<in> stay_points_set stay_areas"
    by (simp add: stay_points_set_def)
qed


lemma route_point_inv:
  assumes el: "distinct (map element points)"
    and dc: "distinct (concat stay_areas)"
    and sub: "set (concat stay_areas) \<subseteq> set points"
    and ne: "[] \<notin> set stay_areas"
    and inv: "route_inv n stay_areas seen st"
    and p: "p \<in> set points" "p \<notin> seen"
  shows "route_inv n stay_areas (insert p seen) (route_point n thr points stay_areas p st)"
proof -
  obtain sp pa lg where st: "st = (sp, pa, lg)"
    by (cases st)
  let ?S = "set (concat stay_areas)"
  let ?U = "\<lambda>l. \<Union>a \<in> set l. set (simplify_stay_area n a)"
  from inv st have I1: "distinct sp" and I2: "distinct lg" and I3: "set lg \<subseteq> set stay_areas"
    and I4: "pa = (\<lambda>a. element (hd a)) ` set lg"
    and I5: "set sp \<subseteq> (seen - ?S) \<union> ?U lg"
    and I6: "?U lg \<subseteq> set sp"
    and I7: "\<forall>a \<in> set stay_areas. set a \<inter> seen \<noteq> {} \<longrightarrow> a \<in> set lg"
    by (simp_all add: route_inv_def)
  have inS: "x \<in> ?S" if "a \<in> set stay_areas" "x \<in> set a" for a x
    using that by auto
  have UsubS: "x \<in> set b" if "x \<in> set (simplify_stay_area n b)" for b x
    using that simplify_stay_area_subset [of n b] by blast
  show ?thesis
  proof (cases "element p \<in> stay_points_set stay_areas")
    case True
    then have pS: "p \<in> ?S"
      using stay_member [OF el sub p(1)] by simp
    show ?thesis
    proof (cases "find (\<lambda>area. p \<in> set area \<and> element (hd area) \<notin> pa) stay_areas")
      case None
      then have all: "element (hd a) \<in> pa" if "a \<in> set stay_areas" "p \<in> set a" for a
        using that by (auto simp: find_None_iff)
      have rp: "route_point n thr points stay_areas p (sp, pa, lg) = (sp, pa, lg)"
        using True None by (simp add: route_point_def)
      have J7: "a \<in> set lg" if a: "a \<in> set stay_areas" "set a \<inter> insert p seen \<noteq> {}" for a
      proof (cases "p \<in> set a")
        case False
        with a have "set a \<inter> seen \<noteq> {}" by auto
        with I7 a(1) show ?thesis by blast
      next
        case True
        from all [OF a(1) True] I4 obtain b where b: "b \<in> set lg" "element (hd a) = element (hd b)"
          by auto
        from b(1) I3 have bs: "b \<in> set stay_areas" by blast
        from a(1) ne have "a \<noteq> []" by auto
        then have ha: "hd a \<in> set a" by simp
        from bs ne have "b \<noteq> []" by auto
        then have hb: "hd b \<in> set b" by simp
        from inS [OF a(1) ha] sub have "hd a \<in> set points" by blast
        moreover from inS [OF bs hb] sub have "hd b \<in> set points" by blast
        ultimately have "hd a = hd b"
          using b(2) by (rule element_inj [OF el])
        with ha hb have "hd a \<in> set b" by simp
        from areas_disjoint [OF dc a(1) bs ha this] b(1) show ?thesis by simp
      qed
      have J5: "set sp \<subseteq> (insert p seen - ?S) \<union> ?U lg"
        using I5 by blast
      show ?thesis
        unfolding st rp route_inv_def using I1 I2 I3 I4 J5 I6 J7 by simp
    next
      case (Some a)
      then have a: "a \<in> set stay_areas" "p \<in> set a" "element (hd a) \<notin> pa"
        by (auto simp: find_Some_iff)
      from a(3) I4 have anl: "a \<notin> set lg" by auto
      have rp: "route_point n thr points stay_areas p (sp, pa, lg)
          = (sp @ simplify_stay_area n a, insert (element (hd a)) pa, lg @ [a])"
        using True Some by (simp add: route_point_def)
      have da: "distinct (simplify_stay_area n a)"
        using areas_distinct [OF dc a(1)] by (rule simplify_stay_area_distinct)
      have disj: "set sp \<inter> set (simplify_stay_area n a) = {}"
      proof (rule ccontr)
        assume "set sp \<inter> set (simplify_stay_area n a) \<noteq> {}"
        then obtain x where x: "x \<in> set sp" "x \<in> set (simplify_stay_area n a)" by blast
        from UsubS [OF x(2)] have xa: "x \<in> set a" .
        from inS [OF a(1) xa] have "x \<in> ?S" .
        with x(1) I5 obtain b where b: "b \<in> set lg" "x \<in> set (simplify_stay_area n b)"
          by blast
        from b(1) I3 have bs: "b \<in> set stay_areas" by blast
        from areas_disjoint [OF dc a(1) bs xa UsubS [OF b(2)]] b(1) anl
        show False by simp
      qed
      have K1: "distinct (sp @ simplify_stay_area n a)"
        using I1 da disj by simp
      have K2: "distinct (lg @ [a])"
        using I2 anl by simp
      have K3: "set (lg @ [a]) \<subseteq> set stay_areas"
        using I3 a(1) by simp
      have K4: "insert (element (hd a)) pa = (\<lambda>a. element (hd a)) ` set (lg @ [a])"
        using I4 by auto
      have K5: "set (sp @ simplify_stay_area n a) \<subseteq> (insert p seen - ?S) \<union> ?U (lg @ [a])"
        using I5 by auto
      have K6: "?U (lg @ [a]) \<subseteq> set (sp @ simplify_stay_area n a)"
        using I6 by auto
      have K7: "b \<in> set (lg @ [a])" if b: "b \<in> set stay_areas" "set b \<inter> insert p seen \<noteq> {}" for b
      proof (cases "p \<in> set b")
        case True
        from areas_disjoint [OF dc a(1) b(1) a(2) True] show ?thesis by simp
      next
        case False
        with b have "set b \<inter> seen \<noteq> {}" by auto
        with I7 b(1) show ?thesis by auto
      qed
      show ?thesis
        unfolding st rp route_inv_def using K1 K2 K3 K4 K5 K6 K7 by simp
    qed
  next
    case False
    then have pS: "p \<notin> ?S"
      using stay_member [OF el sub p(1)] by simp
    have pnsp: "p \<notin> set sp"
    proof
      assume "p \<in> set sp"
      with I5 p(2) obtain b where b: "b \<in> set lg" "p \<in> set (simplify_stay_area n b)"
        by blast
      from b(1) I3 have "b \<in> set stay_areas" by blast
      from inS [OF this UsubS [OF b(2)]] pS show False by simp
    qed
    have J7: "a \<in> set lg" if a: "a \<in> set stay_areas" "set a \<inter> insert p seen \<noteq> {}" for a
    proof -
      from a(1) pS have "p \<notin> set a" by auto
      with a have "set a \<inter> seen \<noteq> {}" by auto
      with I7 a(1) show ?thesis by blast
    qed
    have J5: "set sp \<subseteq> (insert p seen - ?S) \<union> ?U lg"
      using I5 by blast
    have J5': "set (sp @ [p]) \<subseteq> (insert p seen - ?S) \<union> ?U lg"
      using I5 pS by auto
    have J6': "?U lg \<subseteq> set (sp @ [p])"
      using I6 by auto
    show ?thesis
    proof (cases "should_keep_moving_point thr p points sp")
      case keep: True
      with False have rp: "route_point n thr points stay_areas p (sp, pa, lg) = (sp @ [p], pa, lg)"
        by (simp add: route_point_def)
      show ?thesis
        unfolding st rp route_inv_def using I1 pnsp I2 I3 I4 J5' J6' J7 by simp
    next
      case drop: False
      with False have rp: "route_point n thr points stay_areas p (sp, pa, lg) = (sp, pa, lg)"
        by (simp add: route_point_def)
      show ?thesis
        unfolding st rp route_inv_def using I1 I2 I3 I4 J5 I6 J7 by simp
    qed
  qed
qed

lemma route_fold_inv:
  assumes el: "distinct (map element points)"
    and dc: "distinct (concat stay_areas)"
    and sub: "set (concat stay_areas) \<subseteq> set points"
    and ne: "[] \<notin> set stay_areas"
  shows "route_inv n stay_areas seen st \<Longrightarrow> distinct ps \<Longrightarrow> set ps \<subseteq> set points
    \<Longrightarrow> set ps \<inter> seen = {}
    \<Longrightarrow> route_inv n stay_areas (seen \<union> set ps)
          (fold (route_point n thr points stay_areas) ps st)"
proof (induction ps arbitrary: seen st)
  case Nil
  then show ?case by simp
next
  case (Cons p ps)
  from Cons.prems have p: "p \<in> set points" "p \<notin> seen" by auto
  have step: "route_inv n stay_areas (insert p seen) (route_point n thr points stay_areas p st)"
    using el dc sub ne Cons.prems(1) p by (rule route_point_inv)
  from Cons.prems have "distinct ps" "set ps \<subseteq> set points" "set ps \<inter> insert p seen = {}"
    by auto
  from Cons.IH [OF step this]
  show ?case by simp
qed

lemma route_all_inv:
  assumes el: "distinct (map element points)"
    and dc: "distinct (concat stay_areas)"
    and sub: "set (concat stay_areas) \<subseteq> set points"
    and ne: "[] \<notin> set stay_areas"
  shows "route_inv n stay_areas (set points) (route_all n thr points stay_areas)"
proof -
  have init: "route_inv n stay_areas {} ([], {}, [])"
    by (simp add: route_inv_def)
  from el have dp: "distinct points"
    by (simp add: distinct_map)
  from route_fold_inv [OF el dc sub ne init dp, of thr]
  show ?thesis by (simp add: route_all_def)
qed

lemma distinct_areas:
  assumes dc: "distinct (concat stay_areas)" and ne: "[] \<notin> set stay_areas"
  shows "distinct stay_areas"
proof -
  from ne have "removeAll [] stay_areas = stay_areas" by simp
  with dc show ?thesis by (simp add: distinct_concat_iff)
qed

lemma set_sort_by_time: "set (sort_by_time xs) = set xs"
  by (simp add: sort_by_time_def)

lemma distinct_sort_by_time: "distinct (sort_by_time xs) = distinct xs"
  by (simp add: sort_by_time_def)

lemma length_sort_by_time: "length (sort_by_time xs) = length xs"
  by (simp add: sort_by_time_def)

lemma route_all_result:
  assumes el: "distinct (map element points)"
    and dc: "distinct (concat stay_areas)"
    and sub: "set (concat stay_areas) \<subseteq> set points"
    and ne: "[] \<notin> set stay_areas"
    and res: "route_all n thr points stay_areas = (sp, pa, lg)"
  shows "distinct sp"
    and "set sp \<subseteq> set points"
    and "distinct lg"
    and "set lg = set stay_areas"
    and "set sp \<inter> set (concat stay_areas) = (\<Union>a \<in> set stay_areas. set (simplify_stay_area n a))"
proof -
  from route_all_inv [OF el dc sub ne, of n thr] res
  have I1: "distinct sp" and I2: "distinct lg" and I3: "set lg \<subseteq> set stay_areas"
    and I5: "set sp \<subseteq> (set points - set (concat stay_areas))
          \<union> (\<Union>a \<in> set lg. set (simplify_stay_area n a))"
    and I6: "(\<Union>a \<in> set lg. set (simplify_stay_area n a)) \<subseteq> set sp"
    and I7: "\<forall>a \<in> set stay_areas. set a \<inter> set points \<noteq> {} \<longrightarrow> a \<in> set lg"
    by (simp_all add: route_inv_def)
  show "distinct sp" by (rule I1)
  show "distinct lg" by (rule I2)
  have all: "a \<in> set lg" if a: "a \<in> set stay_areas" for a
  proof -
    from a ne have "a \<noteq> []" by auto
    then have "hd a \<in> set a" by simp
    moreover from this a sub have "hd a \<in> set points" by auto
    ultimately have "set a \<inter> set points \<noteq> {}" by blast
    with I7 a show ?thesis by blast
  qed
  with I3 show lgs: "set lg = set stay_areas" by blast
  have simpsub: "set (simplify_stay_area n a) \<subseteq> set (concat stay_areas)"
    if "a \<in> set stay_areas" for a
    using that simplify_stay_area_subset [of n a] by auto
  have U: "(\<Union>a \<in> set lg. set (simplify_stay_area n a)) \<subseteq> set (concat stay_areas)"
    using simpsub lgs by blast
  show "set sp \<subseteq> set points"
  proof
    fix x assume "x \<in> set sp"
    with I5 have "x \<in> set points \<or> x \<in> (\<Union>a \<in> set lg. set (simplify_stay_area n a))"
      by blast
    with U sub show "x \<in> set points" by blast
  qed
  show "set sp \<inter> set (concat stay_areas) = (\<Union>a \<in> set stay_areas. set (simplify_stay_area n a))"
  proof (rule set_eqI)
    fix x
    show "x \<in> set sp \<inter> set (concat stay_areas)
      \<longleftrightarrow> x \<in> (\<Union>a \<in> set stay_areas. set (simplify_stay_area n a))"
    proof
      assume "x \<in> set sp \<inter> set (concat stay_areas)"
      then have "x \<in> set sp" "x \<in> set (concat stay_areas)" by simp_all
      with I5 have "x \<in> (\<Union>a \<in> set lg. set (simplify_stay_area n a))" by blast
      then show "x \<in> (\<Union>a \<in> set stay_areas. set (simplify_stay_area n a))"
        unfolding lgs .
    next
      assume "x \<in> (\<Union>a \<in> set stay_areas. set (simplify_stay_area n a))"
      then have x: "x \<in> (\<Union>a \<in> set lg. set (simplify_stay_area n a))"
        unfolding lgs .
      from x I6 have "x \<in> set sp" by blast
      moreover from x U have "x \<in> set (concat stay_areas)" by blast
      ultimately show "x \<in> set sp \<inter> set (concat stay_areas)" by simp
    qed
  qed
qed

lemma filter_eq_single:
  "distinct xs \<Longrightarrow> a \<in> set xs \<Longrightarrow> filter (\<lambda>b. b = a) xs = [a]"
proof (induction xs)
  case Nil
  then show ?case by simp
next
  case (Cons x xs)
  show ?case
  proof (cases "x = a")
    case True
    with Cons.prems have "a \<notin> set xs" by simp
    then have "filter (\<lambda>b. b = a) xs = []" by (auto simp: filter_empty_conv)
    with True show ?thesis by simp
  next
    case False
    with Cons show ?thesis by simp
  qed
qed

lemma calls_holding_point:
  assumes dc: "distinct (concat stay_areas)"
    and dl: "distinct lg" and sl: "set lg = set stay_areas"
  shows "length (filter (\<lambda>area. p \<in> set area) lg)
           = (if p \<in> set (concat stay_areas) then 1 else 0)"
proof (cases "p \<in> set (concat stay_areas)")
  case True
  then obtain a where a: "a \<in> set stay_areas" "p \<in> set a" by auto
  have "filter (\<lambda>area. p \<in> set area) lg = filter (\<lambda>b. b = a) lg"
  proof (rule filter_cong [OF refl])
    fix b assume "b \<in> set lg"
    with sl have b: "b \<in> set stay_areas" by simp
    show "(p \<in> set b) = (b = a)"
      using areas_disjoint [OF dc a(1) b a(2)] a(2) by auto
  qed
  also have "\<dots> = [a]"
    using dl a(1) sl by (simp add: filter_eq_single)
  finally show ?thesis using True by simp
next
  case False
  then have "\<forall>a \<in> set lg. p \<notin> set a" using sl by auto
  then have "filter (\<lambda>area. p \<in> set area) lg = []"
    by (simp add: filter_empty_conv)
  with False show ?thesis by simp
qed

text \<open>
  C5.  In one run on a sequence of distinct point objects (the zone-filtered sequence),
  every point takes exactly one route: it lies in exactly one stay area when its
  identity is in \<^verbatim>\<open>stay_points_set\<close>, and then \<^verbatim>\<open>simplify_stay_area\<close> is called exactly
  once on an area holding it, and it lies in no stay area otherwise, and then no call
  of \<^verbatim>\<open>simplify_stay_area\<close> concerns it and it is kept or dropped as a moving point.
  Each stay area is simplified exactly once: the areas passed to
  \<^verbatim>\<open>simplify_stay_area\<close> are the stay areas, each of them once.  The retained points
  that belong to stay areas are exactly the results of these calls, every retained
  point is a point of the input, and no point occurs more than once in the retained
  list nor in the final output.
\<close>

theorem C5_each_point_one_route:
  fixes stay_radius min_stay_time moving_threshold :: real
    and max_stay_points :: nat and points :: "point list"
  defines "stay_areas \<equiv> fst (identify_stay_areas_improved stay_radius min_stay_time points)"
  defines "routed \<equiv> route_all max_stay_points moving_threshold points stay_areas"
  defines "simplified_points \<equiv> fst routed"
  defines "simplified_log \<equiv> snd (snd routed)"
  assumes ids: "distinct (map element points)"
  shows "(\<forall>p \<in> set points.
            length (filter (\<lambda>area. p \<in> set area) stay_areas)
              = (if element p \<in> stay_points_set stay_areas then 1 else 0)
          \<and> length (filter (\<lambda>area. p \<in> set area) simplified_log)
              = (if element p \<in> stay_points_set stay_areas then 1 else 0))
       \<and> distinct simplified_log \<and> set simplified_log = set stay_areas
       \<and> length simplified_log = length stay_areas
       \<and> set simplified_points \<inter> set (concat stay_areas)
           = (\<Union>area \<in> set stay_areas. set (simplify_stay_area max_stay_points area))
       \<and> set simplified_points \<subseteq> set points
       \<and> distinct simplified_points
       \<and> distinct (simplify_filtered stay_radius min_stay_time max_stay_points
                      moving_threshold points)
       \<and> set (simplify_filtered stay_radius min_stay_time max_stay_points
                 moving_threshold points) \<subseteq> set points"
proof -
  from ids have dp: "distinct points" by (simp add: distinct_map)
  from identify_areas [OF dp, of stay_radius min_stay_time]
  have dc: "distinct (concat stay_areas)" and sub: "set (concat stay_areas) \<subseteq> set points"
    and ne: "[] \<notin> set stay_areas"
    unfolding stay_areas_def by simp_all
  obtain sp pa lg where res: "route_all max_stay_points moving_threshold points stay_areas = (sp, pa, lg)"
    by (cases "route_all max_stay_points moving_threshold points stay_areas")
  then have sp: "simplified_points = sp" and lg: "simplified_log = lg"
    by (simp_all add: simplified_points_def simplified_log_def routed_def)
  note R = route_all_result [OF ids dc sub ne res]
  have ds: "distinct stay_areas" using dc ne by (rule distinct_areas)
  have len: "length lg = length stay_areas"
    using R(3) R(4) ds by (metis distinct_card)
  have mem: "element p \<in> stay_points_set stay_areas \<longleftrightarrow> p \<in> set (concat stay_areas)"
    if "p \<in> set points" for p
    using stay_member [OF ids sub that] .
  have c1: "length (filter (\<lambda>area. p \<in> set area) stay_areas)
              = (if element p \<in> stay_points_set stay_areas then 1 else 0)"
    if "p \<in> set points" for p
    using calls_holding_point [OF dc ds refl, of p] mem [OF that] by simp
  have c2: "length (filter (\<lambda>area. p \<in> set area) lg)
              = (if element p \<in> stay_points_set stay_areas then 1 else 0)"
    if "p \<in> set points" for p
    using calls_holding_point [OF dc R(3) R(4), of p] mem [OF that] by simp
  have out: "simplify_filtered stay_radius min_stay_time max_stay_points moving_threshold points
      = sort_by_time sp"
    using res by (simp add: simplify_filtered_def stay_areas_def)
  have o1: "distinct (simplify_filtered stay_radius min_stay_time max_stay_points
      moving_threshold points)"
    unfolding out using R(1) by (simp add: distinct_sort_by_time)
  have o2: "set (simplify_filtered stay_radius min_stay_time max_stay_points
      moving_threshold points) \<subseteq> set points"
    unfolding out using R(2) by (simp add: set_sort_by_time)
  show ?thesis
    unfolding sp lg using c1 c2 R len o1 o2 by (intro conjI ballI) simp_all
qed

theorem C5_witness:
  "distinct (map element
      [\<lparr>lat = 0, lon = 0, time = Some 0, element = 10\<rparr>,
       \<lparr>lat = 0, lon = 0, time = Some 300000000, element = 11\<rparr>,
       \<lparr>lat = 0, lon = 0, time = Some 600000000, element = 12\<rparr>])
   \<and> fst (identify_stay_areas_improved 100 600
      [\<lparr>lat = 0, lon = 0, time = Some 0, element = 10\<rparr>,
       \<lparr>lat = 0, lon = 0, time = Some 300000000, element = 11\<rparr>,
       \<lparr>lat = 0, lon = 0, time = Some 600000000, element = 12\<rparr>])
     = [[\<lparr>lat = 0, lon = 0, time = Some 0, element = 10\<rparr>,
       \<lparr>lat = 0, lon = 0, time = Some 300000000, element = 11\<rparr>,
       \<lparr>lat = 0, lon = 0, time = Some 600000000, element = 12\<rparr>]]
   \<and> simplify_filtered 100 600 2 200
      [\<lparr>lat = 0, lon = 0, time = Some 0, element = 10\<rparr>,
       \<lparr>lat = 0, lon = 0, time = Some 300000000, element = 11\<rparr>,
       \<lparr>lat = 0, lon = 0, time = Some 600000000, element = 12\<rparr>]
     = [\<lparr>lat = 0, lon = 0, time = Some 0, element = 10\<rparr>,
       \<lparr>lat = 0, lon = 0, time = Some 600000000, element = 12\<rparr>]
   \<and> length (filter (\<lambda>area. \<lparr>lat = 0, lon = 0, time = Some 300000000, element = 11\<rparr> \<in> set area)
        (snd (snd (route_all 2 200
          [\<lparr>lat = 0, lon = 0, time = Some 0, element = 10\<rparr>,
           \<lparr>lat = 0, lon = 0, time = Some 300000000, element = 11\<rparr>,
           \<lparr>lat = 0, lon = 0, time = Some 600000000, element = 12\<rparr>]
          (fst (identify_stay_areas_improved 100 600
            [\<lparr>lat = 0, lon = 0, time = Some 0, element = 10\<rparr>,
             \<lparr>lat = 0, lon = 0, time = Some 300000000, element = 11\<rparr>,
             \<lparr>lat = 0, lon = 0, time = Some 600000000, element = 12\<rparr>]))))))
     = 1
   \<and> distinct (simplify_filtered 100 600 2 200
      [\<lparr>lat = 0, lon = 0, time = Some 0, element = 10\<rparr>,
       \<lparr>lat = 0, lon = 0, time = Some 300000000, element = 11\<rparr>,
       \<lparr>lat = 0, lon = 0, time = Some 600000000, element = 12\<rparr>])"
proof -
  let ?p0 = "\<lparr>lat = 0, lon = 0, time = Some 0, element = 10\<rparr>"
  let ?p1 = "\<lparr>lat = 0, lon = 0, time = Some 300000000, element = 11\<rparr>"
  let ?p2 = "\<lparr>lat = 0, lon = 0, time = Some 600000000, element = 12\<rparr>"
  let ?X = "[?p0, ?p1, ?p2]"
  have h: "distinct (map element ?X)" by simp
  have ts: "(600::real) \<le> total_seconds 600000000"
    using total_seconds_whole_threshold [of 600 600000000] by simp
  have s: "identify_stay_areas_improved 100 600 ?X = ([?X], [])"
    using ts
    by (simp add: identify_stay_areas_improved_def segment_loop.simps outer_step_def grow.simps
        lookahead.simps walk.simps center_of_def dist_to_def slice_def
        step_distance_def is_stay_area_def haversine_distance_same)
  then have s': "fst (identify_stay_areas_improved 100 600 ?X) = [?X]" by simp
  have r: "route_all 2 200 ?X [?X] = ([?p0, ?p2], {10}, [?X])"
    by (simp add: route_all_def route_point_def stay_points_set_def simplify_stay_area_def)
  have f: "simplify_filtered 100 600 2 200 ?X = [?p0, ?p2]"
    unfolding simplify_filtered_def s' Let_def r
    by (simp add: sort_by_time_def time_key_def)
  have st: "element ?p1 \<in> stay_points_set (fst (identify_stay_areas_improved 100 600 ?X))"
    unfolding s' by (simp add: stay_points_set_def)
  have m: "?p1 \<in> set ?X" by simp
  note T = C5_each_point_one_route [where points = ?X and stay_radius = 100
      and min_stay_time = 600 and max_stay_points = 2 and moving_threshold = 200, OF h]
  from T have "\<forall>p \<in> set ?X.
      length (filter (\<lambda>area. p \<in> set area) (fst (identify_stay_areas_improved 100 600 ?X)))
        = (if element p \<in> stay_points_set (fst (identify_stay_areas_improved 100 600 ?X))
           then 1 else 0)
    \<and> length (filter (\<lambda>area. p \<in> set area)
        (snd (snd (route_all 2 200 ?X (fst (identify_stay_areas_improved 100 600 ?X))))))
        = (if element p \<in> stay_points_set (fst (identify_stay_areas_improved 100 600 ?X))
           then 1 else 0)"
    by (rule conjunct1)
  from bspec [OF this m]
  have "length (filter (\<lambda>area. ?p1 \<in> set area)
        (snd (snd (route_all 2 200 ?X (fst (identify_stay_areas_improved 100 600 ?X))))))
        = (if element ?p1 \<in> stay_points_set (fst (identify_stay_areas_improved 100 600 ?X))
           then 1 else 0)"
    by (rule conjunct2)
  with st have c: "length (filter (\<lambda>area. ?p1 \<in> set area)
        (snd (snd (route_all 2 200 ?X (fst (identify_stay_areas_improved 100 600 ?X)))))) = 1"
    by (simp only: if_True)
  from T have d: "distinct (simplify_filtered 100 600 2 200 ?X)"
    by blast
  from h s' f c d show ?thesis
    by (intro conjI)
qed

section \<open>Running the pipeline on its own output\<close>

lemma keep_extremes_subset:
  assumes "keep_extremes c s = Inr r" and "set s \<subseteq> set c" and "c \<noteq> []"
  shows "set r \<subseteq> set c"
proof -
  let ?srt = "sort_key (\<lambda>p. the (time p)) c"
  from assms(3) have "?srt \<noteq> []"
    by (metis length_sort length_0_conv)
  then have h: "hd ?srt \<in> set c" "last ?srt \<in> set c"
    using hd_in_set [of ?srt] last_in_set [of ?srt] by simp_all
  from assms(3) have l: "last c \<in> set c" by simp
  from assms(1) show ?thesis
    unfolding keep_extremes_def Let_def
    using h l assms(2) by (auto split: if_splits)
qed

lemma central_fold_mem:
  "snd (fold (\<lambda>p (min_distance, central_point).
                  if closer (dist_to p ctr) min_distance \<and> p \<notin> set s
                  then (Some (dist_to p ctr), Some p)
                  else (min_distance, central_point)) ps (d, cp)) = Some q
   \<Longrightarrow> q \<in> set ps \<or> cp = Some q"
proof (induction ps arbitrary: d cp)
  case Nil
  then show ?case by simp
next
  case (Cons p ps)
  show ?case
  proof (cases "closer (dist_to p ctr) d \<and> p \<notin> set s")
    case True
    with Cons.prems Cons.IH [of "Some (dist_to p ctr)" "Some p"] show ?thesis
      by auto
  next
    case False
    with Cons.prems Cons.IH [of d cp] show ?thesis
      by auto
  qed
qed

lemma central_point_of_mem: "central_point_of c s = Some q \<Longrightarrow> q \<in> set c"
  unfolding central_point_of_def using central_fold_mem [of "center_of c" s c None None q]
  by simp

lemma simplify_bupt_cluster_cases:
  assumes "simplify_bupt_cluster n c = Inr r" and "c \<noteq> []" and "\<not> length c \<le> n"
  obtains s1 s2 f1 where
    "(if 2 \<le> n then keep_extremes c (if 1 \<le> n then [hd c] else [])
      else Inr (if 1 \<le> n then [hd c] else [])) = Inr s1"
    and "s2 = s1 \<or> (\<exists>cp. central_point_of c s1 = Some cp \<and> s2 = s1 @ [cp])"
    and "f1 = dedup_ids [] s2
         \<or> f1 = dedup_ids [] s2
                @ take (n - length (dedup_ids [] s2))
                    (sort_key time_key
                       (filter (\<lambda>p. element p \<notin> set (map element (dedup_ids [] s2))) c))"
    and "r = f1 \<or> r = sort_key time_key f1"
proof -
  define G where "G = (\<lambda>simplified.
               let simplified =
                     (if 3 \<le> n then
                        (case central_point_of c simplified of
                           Some central_point \<Rightarrow> simplified @ [central_point]
                         | None \<Rightarrow> simplified)
                      else simplified);
                   final_simplified = dedup_ids [] simplified;
                   seen_ids = map element final_simplified;
                   final_simplified =
                     (if length final_simplified < n then
                        let remaining_points =
                              filter (\<lambda>p. element p \<notin> set seen_ids) c
                        in if remaining_points \<noteq> [] then
                             final_simplified
                             @ take (n - length final_simplified)
                                 (sort_key time_key remaining_points)
                           else final_simplified
                      else final_simplified);
                   final_simplified =
                     (if final_simplified \<noteq> [] \<and> time (hd final_simplified) \<noteq> None
                      then sort_key time_key final_simplified
                      else final_simplified)
               in (Inr final_simplified :: error + point list))"
  define X where "X = (if 2 \<le> n then keep_extremes c (if 1 \<le> n then [hd c] else [])
      else Inr (if 1 \<le> n then [hd c] else []))"
  have eq: "simplify_bupt_cluster n c = (case X of Inl e \<Rightarrow> Inl e | Inr s \<Rightarrow> G s)"
    unfolding simplify_bupt_cluster_def G_def X_def using assms(2,3) by (simp only: if_False Let_def)
  with assms(1) obtain s1 where s1: "X = Inr s1" and g: "G s1 = Inr r"
    by (cases X) simp_all
  define s2 where "s2 = (if 3 \<le> n then
                        (case central_point_of c s1 of
                           Some central_point \<Rightarrow> s1 @ [central_point]
                         | None \<Rightarrow> s1)
                      else s1)"
  define f1 where "f1 = (if length (dedup_ids [] s2) < n then
                        let remaining_points =
                              filter (\<lambda>p. element p \<notin> set (map element (dedup_ids [] s2))) c
                        in if remaining_points \<noteq> [] then
                             dedup_ids [] s2
                             @ take (n - length (dedup_ids [] s2))
                                 (sort_key time_key remaining_points)
                           else dedup_ids [] s2
                      else dedup_ids [] s2)"
  have "G s1 = Inr (if f1 \<noteq> [] \<and> time (hd f1) \<noteq> None then sort_key time_key f1 else f1)"
    unfolding G_def f1_def s2_def by (simp only: Let_def)
  with g have r: "r = (if f1 \<noteq> [] \<and> time (hd f1) \<noteq> None then sort_key time_key f1 else f1)"
    by simp
  have a2: "s2 = s1 \<or> (\<exists>cp. central_point_of c s1 = Some cp \<and> s2 = s1 @ [cp])"
    unfolding s2_def by (simp split: option.splits)
  have a3: "f1 = dedup_ids [] s2
         \<or> f1 = dedup_ids [] s2
                @ take (n - length (dedup_ids [] s2))
                    (sort_key time_key
                       (filter (\<lambda>p. element p \<notin> set (map element (dedup_ids [] s2))) c))"
    unfolding f1_def by (simp add: Let_def)
  have a4: "r = f1 \<or> r = sort_key time_key f1"
    unfolding r by simp
  from s1 [unfolded X_def] a2 a3 a4 show thesis by (rule that)
qed

lemma simplify_bupt_cluster_sound:
  assumes res: "simplify_bupt_cluster n c = Inr r" and dc: "distinct c"
  shows "set r \<subseteq> set c \<and> distinct r"
proof (cases "c = [] \<or> length c \<le> n")
  case True
  with res dc show ?thesis
    by (auto simp: simplify_bupt_cluster_def split: if_splits)
next
  case False
  then have ne: "c \<noteq> []" and big: "\<not> length c \<le> n" by simp_all
  from res ne big obtain s1 s2 f1 where
    k: "(if 2 \<le> n then keep_extremes c (if 1 \<le> n then [hd c] else [])
      else Inr (if 1 \<le> n then [hd c] else [])) = Inr s1"
    and s2: "s2 = s1 \<or> (\<exists>cp. central_point_of c s1 = Some cp \<and> s2 = s1 @ [cp])"
    and f1: "f1 = dedup_ids [] s2
         \<or> f1 = dedup_ids [] s2
                @ take (n - length (dedup_ids [] s2))
                    (sort_key time_key
                       (filter (\<lambda>p. element p \<notin> set (map element (dedup_ids [] s2))) c))"
    and r: "r = f1 \<or> r = sort_key time_key f1"
    by (rule simplify_bupt_cluster_cases)
  let ?s0 = "if 1 \<le> n then [hd c] else []"
  from ne have s0: "set ?s0 \<subseteq> set c" by auto
  have s1c: "set s1 \<subseteq> set c"
  proof (cases "2 \<le> n")
    case True
    with k have "keep_extremes c ?s0 = Inr s1" by simp
    then show ?thesis using s0 ne by (rule keep_extremes_subset)
  next
    case False
    with k have "s1 = ?s0" by simp
    with s0 show ?thesis by simp
  qed
  from s2 s1c have s2c: "set s2 \<subseteq> set c"
    by (auto dest: central_point_of_mem)
  let ?f0 = "dedup_ids [] s2"
  let ?rem = "filter (\<lambda>p. element p \<notin> set (map element ?f0)) c"
  let ?ext = "take (n - length ?f0) (sort_key time_key ?rem)"
  have f0c: "set ?f0 \<subseteq> set c"
    using dedup_ids_set [of "[]" s2] s2c by blast
  have f0d: "distinct ?f0" by (rule dedup_ids_distinct)
  have extsub: "set ?ext \<subseteq> set ?rem"
    using set_take_subset [of "n - length ?f0" "sort_key time_key ?rem"] by simp
  have extc: "set ?ext \<subseteq> set c"
    using extsub by auto
  have extd: "distinct ?ext"
    using dc by (simp add: distinct_take)
  have disj: "set ?f0 \<inter> set ?ext = {}"
    using extsub by auto
  from f1 have f1c: "set f1 \<subseteq> set c"
    using f0c extc by auto
  from f1 have f1d: "distinct f1"
    using f0d extd disj by auto
  from r f1c f1d show ?thesis by auto
qed

lemma distinct_map_replace:
  assumes "distinct (map element (a @ c @ b))" and "distinct s" and "set s \<subseteq> set c"
  shows "distinct (map element (a @ s @ b))"
proof -
  from assms(1) have d: "distinct (a @ c @ b)" and inj: "inj_on element (set (a @ c @ b))"
    by (simp_all only: distinct_map)
  from d assms(2,3) have "distinct (a @ s @ b)" by auto
  moreover from assms(3) have "set (a @ s @ b) \<subseteq> set (a @ c @ b)" by auto
  with inj have "inj_on element (set (a @ s @ b))" by (rule inj_on_subset)
  ultimately show ?thesis by (simp only: distinct_map)
qed

lemma bupt_scan_sound:
  "bupt_scan n ps pr cl = Inr r \<Longrightarrow> distinct (map element (pr @ cl @ ps))
   \<Longrightarrow> distinct (map element r) \<and> set r \<subseteq> set (pr @ cl @ ps)"
proof (induction ps arbitrary: pr cl)
  case Nil
  show ?case
  proof (cases "cl = []")
    case True
    with Nil show ?thesis by simp
  next
    case False
    with Nil.prems(1) obtain sb where sb: "simplify_bupt_cluster n cl = Inr sb" and r: "r = pr @ sb"
      by (auto split: sum.splits)
    from Nil.prems(2) have "distinct cl" by (simp add: distinct_map)
    with sb have s: "set sb \<subseteq> set cl" "distinct sb"
      using simplify_bupt_cluster_sound by blast+
    from distinct_map_replace [OF Nil.prems(2) s(2) s(1)] s(1) r show ?thesis by auto
  qed
next
  case (Cons p ps)
  show ?case
  proof (cases "is_in_bupt_area (lat p) (lon p)")
    case True
    with Cons.prems(1) have "bupt_scan n ps pr (cl @ [p]) = Inr r" by simp
    moreover from Cons.prems(2) have "distinct (map element (pr @ (cl @ [p]) @ ps))" by simp
    ultimately have "distinct (map element r) \<and> set r \<subseteq> set (pr @ (cl @ [p]) @ ps)"
      by (rule Cons.IH)
    then show ?thesis by auto
  next
    case out: False
    show ?thesis
    proof (cases "cl = []")
      case True
      with out Cons.prems(1) have "bupt_scan n ps (pr @ [p]) [] = Inr r" by simp
      moreover from Cons.prems(2) True have "distinct (map element ((pr @ [p]) @ [] @ ps))" by simp
      ultimately have "distinct (map element r) \<and> set r \<subseteq> set ((pr @ [p]) @ [] @ ps)"
        by (rule Cons.IH)
      then show ?thesis by auto
    next
      case False
      with out Cons.prems(1) obtain sb where sb: "simplify_bupt_cluster n cl = Inr sb"
        and run: "bupt_scan n ps (pr @ sb @ [p]) [] = Inr r"
        by (auto split: sum.splits)
      from Cons.prems(2) have "distinct cl" by (simp add: distinct_map)
      with sb have s: "set sb \<subseteq> set cl" "distinct sb"
        using simplify_bupt_cluster_sound by blast+
      from distinct_map_replace [OF Cons.prems(2) s(2) s(1)]
      have "distinct (map element ((pr @ sb @ [p]) @ [] @ ps))" by simp
      with run have "distinct (map element r) \<and> set r \<subseteq> set ((pr @ sb @ [p]) @ [] @ ps)"
        by (rule Cons.IH)
      with s(1) show ?thesis by auto
    qed
  qed
qed

lemma bupt_preprocess_sound:
  assumes "bupt_preprocess n points = Inr r" and "distinct (map element points)"
  shows "distinct (map element r) \<and> set r \<subseteq> set points"
  using bupt_scan_sound [of n points "[]" "[]" r] assms by (simp add: bupt_preprocess_def)

lemma simplify_filtered_sound:
  assumes ids: "distinct (map element points)"
  shows "distinct (map element (simplify_filtered r t n thr points))
       \<and> set (simplify_filtered r t n thr points) \<subseteq> set points"
proof -
  let ?stays = "fst (identify_stay_areas_improved r t points)"
  from ids have dp: "distinct points" and inj: "inj_on element (set points)"
    by (simp_all add: distinct_map)
  from identify_areas [OF dp, of r t]
  have dc: "distinct (concat ?stays)" and sub: "set (concat ?stays) \<subseteq> set points"
    and ne: "[] \<notin> set ?stays"
    by simp_all
  obtain sp pa lg where res: "route_all n thr points ?stays = (sp, pa, lg)"
    by (cases "route_all n thr points ?stays")
  note R = route_all_result [OF ids dc sub ne res]
  have out: "simplify_filtered r t n thr points = sort_by_time sp"
    using res by (simp add: simplify_filtered_def)
  have d: "distinct (simplify_filtered r t n thr points)"
    unfolding out using R(1) by (simp add: distinct_sort_by_time)
  have s: "set (simplify_filtered r t n thr points) \<subseteq> set points"
    unfolding out using R(2) by (simp add: set_sort_by_time)
  from inj s have "inj_on element (set (simplify_filtered r t n thr points))"
    by (rule inj_on_subset)
  with d s show ?thesis by (simp add: distinct_map)
qed

lemma simplify_gpx_improved_sound:
  assumes run: "simplify_gpx_improved r t n thr k X = Inr Y" and ids: "distinct (map element X)"
  shows "distinct (map element Y) \<and> set Y \<subseteq> set X"
proof (cases "X = []")
  case True
  with run show ?thesis by (simp add: simplify_gpx_improved_def)
next
  case False
  with run obtain P where P: "bupt_preprocess k X = Inr P" and Y: "Y = simplify_filtered r t n thr P"
    by (auto simp: simplify_gpx_improved_def split: sum.splits)
  from bupt_preprocess_sound [OF P ids] have p: "distinct (map element P)" "set P \<subseteq> set X"
    by simp_all
  from simplify_filtered_sound [OF p(1), of r t n thr] p(2) Y show ?thesis by auto
qed

text \<open>
  Every run that returns keeps a sub-collection of its input, without repetitions; a
  second run that returns can therefore not return more points than it was given.
\<close>

lemma second_pass_no_more_points:
  assumes ids: "distinct (map element X)"
    and Y: "simplify_gpx_improved r t n thr k X = Inr Y"
    and Z: "simplify_gpx_improved r t n thr k Y = Inr Z"
  shows "set Z \<subseteq> set Y \<and> length Z \<le> length Y"
proof -
  from simplify_gpx_improved_sound [OF Y ids] have dY: "distinct (map element Y)" by simp
  from simplify_gpx_improved_sound [OF Z dY] have dZ: "distinct (map element Z)"
    and sub: "set Z \<subseteq> set Y" by simp_all
  from dZ have "distinct Z" by (simp add: distinct_map)
  then have "length Z = card (set Z)" by (simp add: distinct_card)
  also from sub have "\<dots> \<le> card (set Y)" by (simp add: card_mono)
  also have "\<dots> \<le> length Y" by (rule card_length)
  finally show ?thesis using sub by simp
qed

lemma haversine_meridian:
  assumes "\<bar>la2 - la1\<bar> \<le> 180"
  shows "haversine_distance la1 lo la2 lo = \<bar>la2 - la1\<bar> * pi / 180 * 6371000"
proof -
  define x where "x = (radians la2 - radians la1) / 2"
  have x: "x = (la2 - la1) * pi / 360"
    by (simp add: x_def radians_def field_simps)
  have "\<bar>x\<bar> = \<bar>la2 - la1\<bar> * pi / 360"
    unfolding x by (simp add: abs_mult)
  also have "\<dots> \<le> 180 * pi / 360"
    using assms by (simp add: divide_right_mono mult_right_mono)
  finally have bx: "\<bar>x\<bar> \<le> pi / 2" by simp
  have a: "haversine_a la1 lo la2 lo = (sin x)\<^sup>2"
    by (simp add: haversine_a_def x_def Let_def)
  have "sqrt ((sin x)\<^sup>2) = \<bar>sin x\<bar>" by simp
  also have "\<dots> = sin \<bar>x\<bar>"
  proof (cases "0 \<le> x")
    case True
    with bx have "0 \<le> sin x" by (intro sin_ge_zero) (simp_all add: abs_le_iff)
    with True show ?thesis by simp
  next
    case False
    then have n: "x < 0" by simp
    with bx have "0 \<le> sin (- x)" by (intro sin_ge_zero) (simp_all add: abs_le_iff)
    with n show ?thesis by simp
  qed
  finally have s: "sqrt ((sin x)\<^sup>2) = sin \<bar>x\<bar>" .
  have "arcsin (sin \<bar>x\<bar>) = \<bar>x\<bar>"
    using bx by (intro arcsin_sin) simp_all
  then have "arcsin (sqrt ((sin x)\<^sup>2)) = \<bar>x\<bar>"
    by (simp only: s)
  then have "haversine_distance la1 lo la2 lo = 2 * \<bar>x\<bar> * 6371000"
    by (simp only: haversine_distance_def a)
  also have "\<bar>x\<bar> = \<bar>la2 - la1\<bar> * pi / 360"
    unfolding x by (simp add: abs_mult)
  finally show ?thesis by simp
qed

lemma meridian_near:
  assumes "\<bar>la2 - la1\<bar> \<le> 1 / 5000"
  shows "haversine_distance la1 lo la2 lo \<le> 100"
proof -
  from assms have "\<bar>la2 - la1\<bar> \<le> 180" by simp
  then have "haversine_distance la1 lo la2 lo = \<bar>la2 - la1\<bar> * pi / 180 * 6371000"
    by (rule haversine_meridian)
  also have "\<dots> = \<bar>la2 - la1\<bar> * (pi * 6371000 / 180)" by simp
  also have "\<dots> \<le> 1 / 5000 * (pi * 6371000 / 180)"
    using assms by (intro mult_right_mono) simp_all
  also have "\<dots> \<le> 1 / 5000 * (4 * 6371000 / 180)"
    using pi_less_4 by simp
  also have "\<dots> \<le> 100" by simp
  finally show ?thesis .
qed

lemma meridian_far:
  assumes "1 / 250 \<le> \<bar>la2 - la1\<bar>" and "\<bar>la2 - la1\<bar> \<le> 180"
  shows "200 \<le> haversine_distance la1 lo la2 lo"
proof -
  have "(200::real) \<le> 1 / 250 * (2 * 6371000 / 180)" by simp
  also have "\<dots> \<le> 1 / 250 * (pi * 6371000 / 180)"
    using pi_ge_two by simp
  also have "\<dots> \<le> \<bar>la2 - la1\<bar> * (pi * 6371000 / 180)"
    using assms(1) by (intro mult_right_mono) simp_all
  also have "\<dots> = \<bar>la2 - la1\<bar> * pi / 180 * 6371000" by simp
  also have "\<dots> = haversine_distance la1 lo la2 lo"
    using assms(2) by (rule haversine_meridian [symmetric])
  finally show ?thesis .
qed

lemma meridian_far_radius:
  assumes "1 / 250 \<le> \<bar>la2 - la1\<bar>" and "\<bar>la2 - la1\<bar> \<le> 180"
  shows "\<not> haversine_distance la1 lo la2 lo \<le> 100"
  using meridian_far [OF assms, of lo] by simp

lemma meridian_far_step:
  assumes "1 / 250 \<le> \<bar>la2 - la1\<bar>" and "\<bar>la2 - la1\<bar> \<le> 180"
  shows "\<not> haversine_distance la1 lo la2 lo < 10"
  using meridian_far [OF assms, of lo] by simp

lemma segment_loop_step:
  "i < length points \<Longrightarrow> outer_step r t points (i, sa, ms) = st'
   \<Longrightarrow> segment_loop r t points (i, sa, ms) = segment_loop r t points st'"
  by (subst segment_loop.simps) simp

lemma segment_loop_done:
  "\<not> i < length points \<Longrightarrow> segment_loop r t points (i, sa, ms) = (sa, ms)"
  by (subst segment_loop.simps) simp

text \<open>
  C8.  Running the pipeline on its own output should give at most as many points as
  the first run returned.  The code does not always complete the second run.  With the
  parameters of the constructor (stay radius 100, minimal stay 600, two points for a
  stay area, moving threshold 200, two points for a run in the zone) take twelve points
  on one meridian: a point without timestamp 556 m north of the zone, two coincident
  points in the zone, the first with a timestamp and the second without, eight points
  without timestamp 11 m further north, just outside the zone, and a last point with a
  timestamp back in the zone.  The runs in the zone have two points and one point and
  pass the zone filter unchanged; the last ten points form a stay area, of which the
  first and the last point are kept; the first retained point has no timestamp, so the
  final sort is skipped.  The first run returns four points, the last three of them in
  the zone, in the order timestamp, no timestamp, timestamp.  On this output the zone
  filter finds a run of three points whose first and last points have timestamps, and
  \<^verbatim>\<open>sorted(bupt_cluster, key=lambda p: p['time'])\<close> compares \<^verbatim>\<open>None\<close> with a
  \<^verbatim>\<open>datetime\<close>: the second run raises \<^verbatim>\<open>TypeError\<close> and returns no points at all.
\<close>

theorem C8_second_pass_raises:
  "simplify_gpx_improved 100 600 2 200 2
     [\<lparr>lat = 3997 / 100, lon = 116358 / 1000, time = None, element = 10\<rparr>,
      \<lparr>lat = 39965 / 1000, lon = 116358 / 1000, time = Some 1000000, element = 11\<rparr>,
      \<lparr>lat = 39965 / 1000, lon = 116358 / 1000, time = None, element = 12\<rparr>,
      \<lparr>lat = 399651 / 10000, lon = 116358 / 1000, time = None, element = 13\<rparr>,
      \<lparr>lat = 399651 / 10000, lon = 116358 / 1000, time = None, element = 14\<rparr>,
      \<lparr>lat = 399651 / 10000, lon = 116358 / 1000, time = None, element = 15\<rparr>,
      \<lparr>lat = 399651 / 10000, lon = 116358 / 1000, time = None, element = 16\<rparr>,
      \<lparr>lat = 399651 / 10000, lon = 116358 / 1000, time = None, element = 17\<rparr>,
      \<lparr>lat = 399651 / 10000, lon = 116358 / 1000, time = None, element = 18\<rparr>,
      \<lparr>lat = 399651 / 10000, lon = 116358 / 1000, time = None, element = 19\<rparr>,
      \<lparr>lat = 399651 / 10000, lon = 116358 / 1000, time = None, element = 20\<rparr>,
      \<lparr>lat = 39965 / 1000, lon = 116358 / 1000, time = Some 2000000, element = 21\<rparr>]
   = Inr [\<lparr>lat = 3997 / 100, lon = 116358 / 1000, time = None, element = 10\<rparr>,
      \<lparr>lat = 39965 / 1000, lon = 116358 / 1000, time = Some 1000000, element = 11\<rparr>,
      \<lparr>lat = 39965 / 1000, lon = 116358 / 1000, time = None, element = 12\<rparr>,
      \<lparr>lat = 39965 / 1000, lon = 116358 / 1000, time = Some 2000000, element = 21\<rparr>]
   \<and> simplify_gpx_improved 100 600 2 200 2
     [\<lparr>lat = 3997 / 100, lon = 116358 / 1000, time = None, element = 10\<rparr>,
      \<lparr>lat = 39965 / 1000, lon = 116358 / 1000, time = Some 1000000, element = 11\<rparr>,
      \<lparr>lat = 39965 / 1000, lon = 116358 / 1000, time = None, element = 12\<rparr>,
      \<lparr>lat = 39965 / 1000, lon = 116358 / 1000, time = Some 2000000, element = 21\<rparr>]
   = Inl TypeError"
proof -
  let ?u = "\<lparr>lat = 3997 / 100, lon = 116358 / 1000, time = None, element = 10\<rparr>"
  let ?a = "\<lparr>lat = 39965 / 1000, lon = 116358 / 1000, time = Some 1000000, element = 11\<rparr>"
  let ?b = "\<lparr>lat = 39965 / 1000, lon = 116358 / 1000, time = None, element = 12\<rparr>"
  let ?o1 = "\<lparr>lat = 399651 / 10000, lon = 116358 / 1000, time = None, element = 13\<rparr>"
  let ?o2 = "\<lparr>lat = 399651 / 10000, lon = 116358 / 1000, time = None, element = 14\<rparr>"
  let ?o3 = "\<lparr>lat = 399651 / 10000, lon = 116358 / 1000, time = None, element = 15\<rparr>"
  let ?o4 = "\<lparr>lat = 399651 / 10000, lon = 116358 / 1000, time = None, element = 16\<rparr>"
  let ?o5 = "\<lparr>lat = 399651 / 10000, lon = 116358 / 1000, time = None, element = 17\<rparr>"
  let ?o6 = "\<lparr>lat = 399651 / 10000, lon = 116358 / 1000, time = None, element = 18\<rparr>"
  let ?o7 = "\<lparr>lat = 399651 / 10000, lon = 116358 / 1000, time = None, element = 19\<rparr>"
  let ?o8 = "\<lparr>lat = 399651 / 10000, lon = 116358 / 1000, time = None, element = 20\<rparr>"
  let ?c = "\<lparr>lat = 39965 / 1000, lon = 116358 / 1000, time = Some 2000000, element = 21\<rparr>"
  let ?X = "[?u, ?a, ?b, ?o1, ?o2, ?o3, ?o4, ?o5, ?o6, ?o7, ?o8, ?c]"
  let ?S = "[?b, ?o1, ?o2, ?o3, ?o4, ?o5, ?o6, ?o7, ?o8, ?c]"
  let ?Y = "[?u, ?a, ?b, ?c]"
  have p1: "bupt_preprocess 2 ?X = Inr ?X"
    by (simp add: is_in_bupt_area_def bupt_preprocess_def simplify_bupt_cluster_def)
  have o1: "outer_step 100 600 ?X (0, [], []) = (2, [], [[?u, ?a]])"
    by (simp add: outer_step_def grow.simps lookahead.simps walk.simps center_of_def dist_to_def
        slice_def step_distance_def is_stay_area_def haversine_distance_same
        meridian_near meridian_far_radius meridian_far_step)
  have o2: "outer_step 100 600 ?X (2, [], [[?u, ?a]]) = (12, [?S], [[?u, ?a]])"
    by (simp add: outer_step_def grow.simps lookahead.simps walk.simps center_of_def dist_to_def
        slice_def step_distance_def is_stay_area_def haversine_distance_same
        meridian_near meridian_far_radius meridian_far_step)
  have "segment_loop 100 600 ?X (0, [], []) = segment_loop 100 600 ?X (2, [], [[?u, ?a]])"
    by (rule segment_loop_step [OF _ o1]) simp
  also have "\<dots> = segment_loop 100 600 ?X (12, [?S], [[?u, ?a]])"
    by (rule segment_loop_step [OF _ o2]) simp
  also have "\<dots> = ([?S], [[?u, ?a]])"
    by (rule segment_loop_done) simp
  finally have s1: "identify_stay_areas_improved 100 600 ?X = ([?S], [[?u, ?a]])"
    unfolding identify_stay_areas_improved_def by simp
  have r1: "fst (route_all 2 200 ?X [?S]) = ?Y"
    by (simp add: route_all_def route_point_def stay_points_set_def simplify_stay_area_def
        should_keep_moving_point_def meridian_far)
  have f1: "simplify_filtered 100 600 2 200 ?X = ?Y"
    unfolding simplify_filtered_def s1 using r1
    by (simp add: sort_by_time_def)
  have run1: "simplify_gpx_improved 100 600 2 200 2 ?X = Inr ?Y"
    unfolding simplify_gpx_improved_def p1 using f1 by simp
  have p2: "bupt_preprocess 2 ?Y = Inl TypeError"
    by (simp add: is_in_bupt_area_def bupt_preprocess_def simplify_bupt_cluster_def
        keep_extremes_def)
  have run2: "simplify_gpx_improved 100 600 2 200 2 ?Y = Inl TypeError"
    unfolding simplify_gpx_improved_def p2 by simp
  from run1 run2 show ?thesis by (rule conjI)
qed

end
